theory Spec2Isabelle
  imports Main "HOL-Library.AList"
begin

section \<open>JavaScript strings and objects\<close>

text \<open>
  A source text is a \<open>string\<close>: one \<open>char\<close> stands for one UTF-16 code unit in the
  range 0..255, so \<open>length\<close> is JavaScript's \<open>.length\<close> on such texts. Within that range
  the white space of \<open>\s\<close> and of \<open>String.prototype.trim\<close> is TAB, LF, VT, FF, CR, SPACE
  and NBSP, and the line terminators that \<open>.\<close> refuses are LF and CR.
\<close>

definition is_space :: "char \<Rightarrow> bool" where
  "is_space c = (c \<in> {CHR 0x09, CHR 0x0A, CHR 0x0B, CHR 0x0C, CHR 0x0D, CHR 0x20, CHR 0xA0})"

definition is_line_terminator :: "char \<Rightarrow> bool" where
  "is_line_terminator c = (c = CHR 0x0A \<or> c = CHR 0x0D)"

definition is_quote :: "char \<Rightarrow> bool" where
  \<comment> \<open>the class \<open>['"`]\<close>\<close>
  "is_quote c = (c = CHR 0x27 \<or> c = CHR 0x22 \<or> c = CHR 0x60)"

definition is_digit :: "char \<Rightarrow> bool" where
  \<comment> \<open>the class \<open>\d\<close>\<close>
  "is_digit c = (c \<in> set ''0123456789'')"

definition trim :: "string \<Rightarrow> string" where
  "trim s = rev (dropWhile is_space (rev (dropWhile is_space s)))"

fun split_on :: "char \<Rightarrow> string \<Rightarrow> string list" where
  \<comment> \<open>\<open>s.split(c)\<close> for a one-character separator: never empty, \<open>''.split(c) = ['']\<close>\<close>
  "split_on c [] = [[]]"
| "split_on c (x # xs) =
     (if x = c then [] # split_on c xs
      else (case split_on c xs of [] \<Rightarrow> [[x]] | l # ls \<Rightarrow> (x # l) # ls))"

fun join :: "string \<Rightarrow> string list \<Rightarrow> string" where
  \<comment> \<open>\<open>ls.join(sep)\<close>\<close>
  "join sep [] = []"
| "join sep [l] = l"
| "join sep (l # l' # ls) = l @ sep @ join sep (l' # ls)"

definition slice :: "'a list \<Rightarrow> nat \<Rightarrow> nat \<Rightarrow> 'a list" where
  \<comment> \<open>\<open>xs.slice(b, e)\<close> for \<open>0 \<le> b\<close>, \<open>0 \<le> e\<close>: the indices \<open>b \<le> i < min e (length xs)\<close>\<close>
  "slice xs b e = take (e - b) (drop b xs)"

definition startsWith :: "'a list \<Rightarrow> 'a list \<Rightarrow> bool" where
  "startsWith s p = (take (length p) s = p)"

fun js_includes :: "'a list \<Rightarrow> 'a list \<Rightarrow> bool" where
  \<comment> \<open>\<open>s.includes(p)\<close>; also \<open>/p/.test(s)\<close> for a literal \<open>p\<close>\<close>
  "js_includes [] p = (p = [])"
| "js_includes (c # cs) p = (startsWith (c # cs) p \<or> js_includes cs p)"

definition lower_char :: "char \<Rightarrow> char" where
  \<comment> \<open>ASCII case folding\<close>
  "lower_char c =
     (case map_of (zip ''ABCDEFGHIJKLMNOPQRSTUVWXYZ'' ''abcdefghijklmnopqrstuvwxyz'') c of
        Some l \<Rightarrow> l | None \<Rightarrow> c)"

definition upper_char :: "char \<Rightarrow> char" where
  "upper_char c =
     (case map_of (zip ''abcdefghijklmnopqrstuvwxyz'' ''ABCDEFGHIJKLMNOPQRSTUVWXYZ'') c of
        Some u \<Rightarrow> u | None \<Rightarrow> c)"

definition is_letter :: "char \<Rightarrow> bool" where
  \<comment> \<open>the class \<open>[a-z]\<close> under the flag \<open>i\<close>\<close>
  "is_letter c = (lower_char c \<in> set ''abcdefghijklmnopqrstuvwxyz'')"

definition ci_includes :: "string \<Rightarrow> string \<Rightarrow> bool" where
  \<comment> \<open>\<open>/p/i.test(s)\<close> for a literal \<open>p\<close> written in lower-case ASCII: under the flag \<open>i\<close>
      (no flag \<open>u\<close>) a code unit above 127 never folds onto an ASCII letter\<close>
  "ci_includes s p = js_includes (map lower_char s) p"

definition ci_startsWith :: "string \<Rightarrow> string \<Rightarrow> bool" where
  "ci_startsWith s p = startsWith (map lower_char s) p"

text \<open>
  An object with string keys is the list of its own properties in creation order.
  \<open>Object.keys\<close> lists the array-index keys first, in ascending numeric order, then the
  other keys in creation order. The operator \<open>in\<close> also sees the properties inherited
  from \<open>Object.prototype\<close>, and an assignment to \<open>__proto__\<close> of a string value
  reaches the inherited setter, which ignores it: no own property is created.
\<close>

type_synonym 'v obj = "(string \<times> 'v) list"

definition decimal_value :: "string \<Rightarrow> int" where
  \<comment> \<open>the number a string of decimal digits denotes\<close>
  "decimal_value s = foldl (\<lambda>n c. 10 * n + (of_char c - 48)) 0 s"

definition is_array_index :: "string \<Rightarrow> bool" where
  "is_array_index s =
     (s \<noteq> [] \<and> list_all is_digit s \<and> (hd s = CHR ''0'' \<longrightarrow> length s = 1)
      \<and> decimal_value s \<le> 4294967294)"

definition Object_keys :: "'v obj \<Rightarrow> string list" where
  "Object_keys ob =
     (let ks = map fst ob
      in sort_key decimal_value (filter is_array_index ks)
         @ filter (\<lambda>k. \<not> is_array_index k) ks)"

definition Object_prototype_keys :: "string list" where
  "Object_prototype_keys =
     [''constructor'', ''__defineGetter__'', ''__defineSetter__'', ''hasOwnProperty'',
      ''__lookupGetter__'', ''__lookupSetter__'', ''isPrototypeOf'', ''propertyIsEnumerable'',
      ''toString'', ''valueOf'', ''__proto__'', ''toLocaleString'']"

definition js_in :: "string \<Rightarrow> 'v obj \<Rightarrow> bool" where
  \<comment> \<open>\<open>key in ob\<close> for an object created by a literal \<open>{}\<close>\<close>
  "js_in k ob = (k \<in> fst ` set ob \<or> k \<in> set Object_prototype_keys)"

definition obj_set :: "string \<Rightarrow> string \<Rightarrow> string obj \<Rightarrow> string obj" where
  \<comment> \<open>\<open>ob[k] = v\<close> for a string \<open>v\<close>\<close>
  "obj_set k v ob = (if k = ''__proto__'' then ob else AList.update k v ob)"

definition obj_get :: "string obj \<Rightarrow> string \<Rightarrow> string option" where
  \<comment> \<open>\<open>ob[k]\<close> at an own key; \<open>None\<close> is \<open>undefined\<close>\<close>
  "obj_get ob k = map_of ob k"

section \<open>File helpers (src/utils/fileHelpers.js)\<close>

text \<open>
  The file system is outside the program: a path is absent, present but unreadable
  (\<open>readFile\<close> catches the error and returns \<open>null\<close>), or present with a content.
\<close>

datatype fs_file = Absent | Unreadable | Content string

definition fileExists :: "fs_file \<Rightarrow> bool" where
  "fileExists f = (f \<noteq> Absent)"

definition readFile :: "fs_file \<Rightarrow> string option" where
  "readFile f = (case f of Content s \<Rightarrow> Some s | _ \<Rightarrow> None)"

definition strip_quotes :: "string \<Rightarrow> string" where
  \<comment> \<open>\<open>v.replace(/^["']|["']$/g, '')\<close>: one quote off the front, then one quote off the
      end of what is left\<close>
  "strip_quotes v =
     (let is_q = (\<lambda>c. c = CHR 0x22 \<or> c = CHR 0x27);
          v1 = (case v of [] \<Rightarrow> [] | c # cs \<Rightarrow> if is_q c then cs else v)
      in if v1 \<noteq> [] \<and> is_q (last v1) then butlast v1 else v1)"

definition env_line :: "string \<Rightarrow> (string \<times> string) option" where
  \<comment> \<open>one iteration of the loop of \<open>parseEnvFile\<close>: the entry a line assigns, if any.
      \<open>/^([^=]+)=(.*)$/\<close> needs a first \<open>=\<close> that is not the first character and no
      line terminator after it.\<close>
  "env_line line =
     (let trimmed = trim line
      in if trimmed = [] \<or> startsWith trimmed ''#'' then None
         else (let m1 = takeWhile (\<lambda>c. c \<noteq> CHR ''='') trimmed;
                   rest = dropWhile (\<lambda>c. c \<noteq> CHR ''='') trimmed
               in if m1 \<noteq> [] \<and> rest \<noteq> [] \<and> \<not> list_ex is_line_terminator (tl rest)
                  then Some (trim m1, strip_quotes (trim (tl rest)))
                  else None))"

fun env_loop :: "string list \<Rightarrow> string obj \<Rightarrow> string obj" where
  "env_loop [] env = env"
| "env_loop (line # lines) env =
     (case env_line line of
        None \<Rightarrow> env_loop lines env
      | Some (key, val) \<Rightarrow> env_loop lines (obj_set key val env))"

definition parseEnvFile :: "fs_file \<Rightarrow> string obj" where
  "parseEnvFile f =
     (case readFile f of
        None \<Rightarrow> []
      | Some content \<Rightarrow> if content = [] then [] else env_loop (split_on CHR 0x0A content) [])"

section \<open>Text extractors (src/utils/parseHelpers.js)\<close>

subsection \<open>extractRoutes\<close>

text \<open>The fields of a route are \<open>method\<close>, \<open>path\<close> and \<open>line\<close>.\<close>

record route =
  rmethod :: string
  path :: string
  line :: nat

text \<open>
  The array \<open>patterns\<close> holds three regular expressions with the flag \<open>g\<close>; the first
  two are the same expression \<open>(?:app|router)\.(get|...)\s*\(['"`]([^'"`]+)['"`]\<close>, the
  third starts with \<open>Route\<close>. None has the flag \<open>i\<close>.
\<close>

datatype route_pattern = AppRouter | RouteFacade

definition patterns :: "route_pattern list" where
  "patterns = [AppRouter, AppRouter, RouteFacade]"

definition receivers :: "route_pattern \<Rightarrow> string list" where
  "receivers pat = (case pat of AppRouter \<Rightarrow> [''app'', ''router''] | RouteFacade \<Rightarrow> [''Route''])"

definition http_verbs :: "string list" where
  "http_verbs = [''get'', ''post'', ''put'', ''delete'', ''patch'']"

fun first_some :: "('a \<Rightarrow> 'b option) \<Rightarrow> 'a list \<Rightarrow> 'b option" where
  \<comment> \<open>ordered alternatives: the first one that succeeds\<close>
  "first_some f [] = None"
| "first_some f (x # xs) = (case f x of Some y \<Rightarrow> Some y | None \<Rightarrow> first_some f xs)"

definition strip_prefix :: "string \<Rightarrow> string \<Rightarrow> string option" where
  "strip_prefix p s = (if startsWith s p then Some (drop (length p) s) else None)"

definition route_args :: "string \<Rightarrow> (string \<times> nat) option" where
  \<comment> \<open>\<open>\s*\(['"`]([^'"`]+)['"`]\<close> at the head of \<open>s\<close>: the path and the number of
      characters matched. The greedy \<open>\s*\<close> and \<open>[^'"`]+\<close> are each followed by a
      character outside their class, so no shorter repetition can match.\<close>
  "route_args s =
     (let ws = takeWhile is_space s
      in case dropWhile is_space s of
           c1 # c2 # s2 \<Rightarrow>
             if c1 = CHR ''('' \<and> is_quote c2
             then (let p = takeWhile (\<lambda>c. \<not> is_quote c) s2
                   in if p \<noteq> [] \<and> dropWhile (\<lambda>c. \<not> is_quote c) s2 \<noteq> []
                      then Some (p, length ws + 2 + length p + 1)
                      else None)
             else None
         | _ \<Rightarrow> None)"

definition match_route_at :: "route_pattern \<Rightarrow> string \<Rightarrow> (string \<times> string \<times> nat) option" where
  \<comment> \<open>the pattern anchored at the head of \<open>s\<close>: verb, path and length of the match\<close>
  "match_route_at pat s =
     first_some (\<lambda>recv.
       case strip_prefix (recv @ ''.'') s of
         None \<Rightarrow> None
       | Some s1 \<Rightarrow>
           first_some (\<lambda>verb.
             case strip_prefix verb s1 of
               None \<Rightarrow> None
             | Some s2 \<Rightarrow>
                 (case route_args s2 of
                    None \<Rightarrow> None
                  | Some (p, n) \<Rightarrow> Some (verb, p, length recv + 1 + length verb + n)))
             http_verbs)
       (receivers pat)"

fun search_route :: "route_pattern \<Rightarrow> string \<Rightarrow> nat \<Rightarrow> (nat \<times> string \<times> string \<times> nat) option" where
  \<comment> \<open>the leftmost match in the rest of the text, which starts at index \<open>i\<close>; the
      pattern matches no empty text\<close>
  "search_route pat [] i = None"
| "search_route pat (c # cs) i =
     (case match_route_at pat (c # cs) of
        Some (verb, p, n) \<Rightarrow> Some (i, verb, p, n)
      | None \<Rightarrow> search_route pat cs (Suc i))"

definition exec :: "route_pattern \<Rightarrow> string \<Rightarrow> nat \<Rightarrow> (nat \<times> string \<times> string \<times> nat) option" where
  \<comment> \<open>\<open>pattern.exec(code)\<close> with \<open>pattern.lastIndex = lastIndex\<close>: index, groups 1 and 2
      and length of the match; the new \<open>lastIndex\<close> is index + length\<close>
  "exec pat code lastIndex =
     (if length code < lastIndex then None else search_route pat (drop lastIndex code) lastIndex)"

definition ascii_upper :: "string \<Rightarrow> string" where
  \<comment> \<open>\<open>toUpperCase\<close> on ASCII text\<close>
  "ascii_upper s = map upper_char s"

definition ascii_lower :: "string \<Rightarrow> string" where
  \<comment> \<open>\<open>toLowerCase\<close> on ASCII text\<close>
  "ascii_lower s = map lower_char s"

definition route_of_match :: "string \<Rightarrow> nat \<times> string \<times> string \<times> nat \<Rightarrow> route" where
  \<comment> \<open>the verb is one of the five lower-case ASCII verbs\<close>
  "route_of_match code m =
     (case m of (idx, verb, p, n) \<Rightarrow>
        \<lparr>rmethod = ascii_upper verb, path = p,
         line = length (split_on CHR 0x0A (take idx code))\<rparr>)"

definition line_of_index :: "string \<Rightarrow> nat \<Rightarrow> nat" where
  \<comment> \<open>\<open>code.substring(0, index).split('\n').length\<close>\<close>
  "line_of_index code idx = length (split_on CHR 0x0A (take idx code))"

lemma first_some_SomeD: "first_some f xs = Some y \<Longrightarrow> \<exists>x \<in> set xs. f x = Some y"
  by (induction xs) (auto split: option.splits)

lemma match_route_at_pos: "match_route_at pat s = Some (v, p, n) \<Longrightarrow> 0 < n"
proof -
  assume "match_route_at pat s = Some (v, p, n)"
  then obtain recv where r: "(case strip_prefix (recv @ ''.'') s of
         None \<Rightarrow> None
       | Some s1 \<Rightarrow>
           first_some (\<lambda>verb.
             case strip_prefix verb s1 of
               None \<Rightarrow> None
             | Some s2 \<Rightarrow>
                 (case route_args s2 of
                    None \<Rightarrow> None
                  | Some (p, n) \<Rightarrow> Some (verb, p, length recv + 1 + length verb + n)))
             http_verbs) = Some (v, p, n)"
    unfolding match_route_at_def by (blast dest: first_some_SomeD)
  then obtain s1 where "first_some (\<lambda>verb.
             case strip_prefix verb s1 of
               None \<Rightarrow> None
             | Some s2 \<Rightarrow>
                 (case route_args s2 of
                    None \<Rightarrow> None
                  | Some (p, n) \<Rightarrow> Some (verb, p, length recv + 1 + length verb + n)))
             http_verbs = Some (v, p, n)"
    by (auto split: option.splits)
  then obtain verb where "(case strip_prefix verb s1 of
               None \<Rightarrow> None
             | Some s2 \<Rightarrow>
                 (case route_args s2 of
                    None \<Rightarrow> None
                  | Some (p, n) \<Rightarrow> Some (verb, p, length recv + 1 + length verb + n))) = Some (v, p, n)"
    by (blast dest: first_some_SomeD)
  then show ?thesis by (auto split: option.splits)
qed

lemma search_route_bounds: "search_route pat s i = Some (idx, v, p, n) \<Longrightarrow> i \<le> idx \<and> 0 < n"
proof (induction s arbitrary: i)
  case Nil
  then show ?case by simp
next
  case (Cons c cs)
  show ?case
  proof (cases "match_route_at pat (c # cs)")
    case None
    with Cons.prems have "search_route pat cs (Suc i) = Some (idx, v, p, n)" by simp
    from Cons.IH[OF this] show ?thesis by simp
  next
    case (Some m)
    obtain v' p' n' where m: "m = (v', p', n')" by (cases m)
    with Some Cons.prems have "idx = i" "v' = v" "p' = p" "n' = n" by auto
    with Some m show ?thesis using match_route_at_pos[of pat "c # cs" v p n] by simp
  qed
qed
text \<open>
  The loop \<open>while ((match = pattern.exec(code)) !== null)\<close> of one pattern: every match
  is at least one character long, so \<open>lastIndex\<close> grows and the loop ends.
\<close>

function exec_loop :: "route_pattern \<Rightarrow> string \<Rightarrow> nat \<Rightarrow> route list" where
  "exec_loop pat code lastIndex =
     (case exec pat code lastIndex of
        None \<Rightarrow> []
      | Some m \<Rightarrow> route_of_match code m # exec_loop pat code (fst m + snd (snd (snd m))))"
  by pat_completeness auto
termination
proof (relation "measure (\<lambda>(pat, code, i). Suc (length code) - i)")
  show "wf (measure (\<lambda>(pat, code, i). Suc (length code) - i))" by simp
next
  fix pat code lastIndex m
  assume e: "exec pat code lastIndex = Some m"
  obtain idx v p n where m: "m = (idx, v, p, n)" by (cases m)
  from e have le: "lastIndex \<le> length code" and s: "search_route pat (drop lastIndex code) lastIndex = Some m"
    by (auto simp: exec_def split: if_splits)
  from s m have "lastIndex \<le> idx \<and> 0 < n" using search_route_bounds by blast
  with le m show "((pat, code, fst m + snd (snd (snd m))), (pat, code, lastIndex)) \<in> measure (\<lambda>(pat, code, i). Suc (length code) - i)"
    by simp arith
qed

declare exec_loop.simps [simp del]

definition extractRoutes :: "string \<Rightarrow> route list" where
  "extractRoutes code = concat (map (\<lambda>pat. exec_loop pat code 0) patterns)"

text \<open>
  The same function with its objects made explicit, to follow repeated calls. Each
  evaluation of a regular expression literal creates a new RegExp object with
  \<open>lastIndex = 0\<close>; \<open>exec\<close> reads and writes the \<open>lastIndex\<close> of its object, setting it
  to 0 when it finds no match. The store holds the \<open>lastIndex\<close> of every RegExp object
  created so far and outlives a call; the array \<open>routes\<close> is created by each call.
\<close>

record store =
  next_address :: nat
  lastIndex_at :: "nat \<Rightarrow> nat"

definition new_RegExp :: "store \<Rightarrow> nat \<times> store" where
  "new_RegExp s =
     (next_address s,
      s\<lparr>next_address := Suc (next_address s),
        lastIndex_at := (lastIndex_at s)(next_address s := 0)\<rparr>)"

fun new_patterns :: "route_pattern list \<Rightarrow> store \<Rightarrow> (route_pattern \<times> nat) list \<times> store" where
  \<comment> \<open>the array literal \<open>patterns\<close>: one new object per element\<close>
  "new_patterns [] s = ([], s)"
| "new_patterns (pat # pats) s =
     (case new_RegExp s of (a, s1) \<Rightarrow>
        (case new_patterns pats s1 of (regs, s2) \<Rightarrow> ((pat, a) # regs, s2)))"

definition exec_st ::
  "route_pattern \<times> nat \<Rightarrow> string \<Rightarrow> store \<Rightarrow> (nat \<times> string \<times> string \<times> nat) option \<times> store" where
  \<comment> \<open>\<open>pattern.exec(code)\<close> on the object at address \<open>snd reg\<close>\<close>
  "exec_st reg code s =
     (case exec (fst reg) code (lastIndex_at s (snd reg)) of
        None \<Rightarrow> (None, s\<lparr>lastIndex_at := (lastIndex_at s)(snd reg := 0)\<rparr>)
      | Some m \<Rightarrow>
          (Some m, s\<lparr>lastIndex_at := (lastIndex_at s)(snd reg := fst m + snd (snd (snd m)))\<rparr>))"

function while_exec ::
  "route_pattern \<times> nat \<Rightarrow> string \<Rightarrow> route list \<Rightarrow> store \<Rightarrow> route list \<times> store" where
  \<comment> \<open>\<open>while ((match = pattern.exec(code)) !== null) routes.push(...)\<close>\<close>
  "while_exec reg code routes s =
     (case exec_st reg code s of
        (None, s') \<Rightarrow> (routes, s')
      | (Some m, s') \<Rightarrow> while_exec reg code (routes @ [route_of_match code m]) s')"
  by pat_completeness auto
termination
proof (relation "measure (\<lambda>(reg, code, routes, s). Suc (length code) - lastIndex_at s (snd reg))")
  show "wf (measure (\<lambda>(reg, code, routes, s). Suc (length code) - lastIndex_at s (snd reg)))"
    by simp
next
  fix reg :: "route_pattern \<times> nat" and code routes s x1 s' m
  assume x: "(x1, s') = exec_st reg code s" and x1: "x1 = Some m"
  let ?i = "lastIndex_at s (snd reg)"
  from x x1 have e: "exec (fst reg) code ?i = Some m"
    and s': "s' = s\<lparr>lastIndex_at := (lastIndex_at s)(snd reg := fst m + snd (snd (snd m)))\<rparr>"
    by (auto simp: exec_st_def split: option.splits)
  obtain idx v p n where m: "m = (idx, v, p, n)" by (cases m)
  from e have le: "?i \<le> length code"
    and sr: "search_route (fst reg) (drop ?i code) ?i = Some m"
    by (auto simp: exec_def split: if_splits)
  from sr m have "?i \<le> idx \<and> 0 < n" using search_route_bounds by blast
  with le m s'
  show "((reg, code, routes @ [route_of_match code m], s'), (reg, code, routes, s))
          \<in> measure (\<lambda>(reg, code, routes, s). Suc (length code) - lastIndex_at s (snd reg))"
    by simp arith
qed

declare while_exec.simps [simp del]

fun forEach_pattern ::
  "(route_pattern \<times> nat) list \<Rightarrow> string \<Rightarrow> route list \<Rightarrow> store \<Rightarrow> route list \<times> store" where
  \<comment> \<open>\<open>patterns.forEach(pattern => { ... })\<close>\<close>
  "forEach_pattern [] code routes s = (routes, s)"
| "forEach_pattern (reg # regs) code routes s =
     (case while_exec reg code routes s of (routes', s') \<Rightarrow> forEach_pattern regs code routes' s')"

definition extractRoutes_st :: "string \<Rightarrow> store \<Rightarrow> route list \<times> store" where
  \<comment> \<open>one call of \<open>extractRoutes(code)\<close> in the store \<open>s\<close>: the routes returned and the
      store left behind\<close>
  "extractRoutes_st code s =
     (case new_patterns patterns s of (regs, s1) \<Rightarrow> forEach_pattern regs code [] s1)"

subsection \<open>hasAuthMiddleware\<close>

fun test_some_index :: "(string \<Rightarrow> bool) \<Rightarrow> string \<Rightarrow> bool" where
  \<comment> \<open>\<open>regexp.test(s)\<close>: the anchored pattern matches at some index of \<open>s\<close>\<close>
  "test_some_index P [] = P []"
| "test_some_index P (c # cs) = (P (c # cs) \<or> test_some_index P cs)"

definition same_line :: "string \<Rightarrow> string" where
  \<comment> \<open>what \<open>.*\<close> can cover: the text up to the next line terminator\<close>
  "same_line s = takeWhile (\<lambda>c. \<not> is_line_terminator c) s"

definition auth_identifier :: "string \<Rightarrow> bool" where
  \<comment> \<open>\<open>/authenticate|auth|jwt|verifyToken|requireAuth|isAuthenticated/i\<close>\<close>
  "auth_identifier s =
     list_ex (ci_includes s)
       [''authenticate'', ''auth'', ''jwt'', ''verifytoken'', ''requireauth'', ''isauthenticated'']"

definition passport_call :: "string \<Rightarrow> bool" where
  \<comment> \<open>\<open>/passport\.authenticate/\<close>\<close>
  "passport_call s = js_includes s ''passport.authenticate''"

definition middleware_then_auth :: "string \<Rightarrow> bool" where
  \<comment> \<open>\<open>/middleware.*auth/i\<close>\<close>
  "middleware_then_auth s =
     test_some_index
       (\<lambda>t. ci_startsWith t ''middleware''
            \<and> ci_includes (same_line (drop (length ''middleware'') t)) ''auth'') s"

definition authPatterns :: "(string \<Rightarrow> bool) list" where
  "authPatterns = [auth_identifier, passport_call, middleware_then_auth]"

definition hasAuthMiddleware :: "string \<Rightarrow> nat \<Rightarrow> bool" where
  \<comment> \<open>\<open>routeIndex\<close> is a line number, the \<open>.length\<close> of an array;
      \<open>Math.max(0, routeIndex - 3)\<close> is the truncated subtraction of \<open>nat\<close>\<close>
  "hasAuthMiddleware code routeIndex =
     (let lines = split_on CHR 0x0A code;
          context = join ''\<newline>'' (slice lines (routeIndex - 3) (routeIndex + 3))
      in list_ex (\<lambda>pattern. pattern context) authPatterns)"

definition auth_token :: "string \<Rightarrow> bool" where
  \<comment> \<open>\<open>authPatterns.some(pattern => pattern.test(s))\<close>\<close>
  "auth_token s = list_ex (\<lambda>pattern. pattern s) authPatterns"

definition spec_hasAuthMiddleware :: "string \<Rightarrow> nat \<Rightarrow> bool" where
  \<comment> \<open>the check as the specification words it: the window is two lines before the
      target line through two lines after it, five lines\<close>
  "spec_hasAuthMiddleware code routeIndex =
     auth_token (join ''\<newline>'' (slice (split_on CHR 0x0A code) (routeIndex - 3) (routeIndex + 2)))"

subsection \<open>extractJWTExpiry\<close>

datatype jwt_pattern = ExpiresInUnit | ExpiresInBare | JwtExpiryUnit

definition jwt_patterns :: "jwt_pattern list" where
  "jwt_patterns = [ExpiresInUnit, ExpiresInBare, JwtExpiryUnit]"

definition match_jwt_at :: "jwt_pattern \<Rightarrow> string \<Rightarrow> (string \<times> string option) option" where
  \<comment> \<open>the pattern anchored at the head of \<open>s\<close>: group 1 and, where the pattern has
      one, group 2. Patterns 1 and 3 are
      \<open>KEYWORD\s*[:=]\s*['"`]?(\d+)\s*([a-z]+)['"`]?\<close>, pattern 2 is
      \<open>expiresIn\s*[:=]\s*(\d+)\<close>, all with the flag \<open>i\<close>. Every greedy repetition is
      followed by a character outside its class, so giving characters back never helps.\<close>
  "match_jwt_at pat s =
     (let kw = (case pat of JwtExpiryUnit \<Rightarrow> ''jwt_expiry'' | _ \<Rightarrow> ''expiresin'')
      in if \<not> ci_startsWith s kw then None
         else (case dropWhile is_space (drop (length kw) s) of
                 [] \<Rightarrow> None
               | c # s2 \<Rightarrow>
                   if c \<noteq> CHR '':'' \<and> c \<noteq> CHR ''='' then None
                   else (let s3 = dropWhile is_space s2
                         in case pat of
                              ExpiresInBare \<Rightarrow>
                                (let d = takeWhile is_digit s3
                                 in if d = [] then None else Some (d, None))
                            | _ \<Rightarrow>
                                (let s4 = (case s3 of [] \<Rightarrow> []
                                           | q # r \<Rightarrow> if is_quote q then r else s3);
                                     d = takeWhile is_digit s4;
                                     s5 = dropWhile is_space (dropWhile is_digit s4);
                                     u = takeWhile is_letter s5
                                 in if d = [] \<or> u = [] then None else Some (d, Some u)))))"

fun search_jwt :: "jwt_pattern \<Rightarrow> string \<Rightarrow> (string \<times> string option) option" where
  \<comment> \<open>\<open>code.match(pattern)\<close> without the flag \<open>g\<close>: the leftmost match\<close>
  "search_jwt pat [] = None"
| "search_jwt pat (c # cs) =
     (case match_jwt_at pat (c # cs) of Some m \<Rightarrow> Some m | None \<Rightarrow> search_jwt pat cs)"

text \<open>
  JavaScript numbers are modelled by unbounded integers: \<open>parseInt\<close> of a digit string
  and the products below are exact up to \<open>2^53\<close>, and rounding beyond that is monotone,
  so the comparisons with the thresholds of the auth validator come out the same.
\<close>

definition to_seconds :: "int \<Rightarrow> string \<Rightarrow> int" where
  "to_seconds val unit =
     (if js_includes unit ''year'' \<or> unit = ''y'' then val * 365 * 24 * 60 * 60
      else if js_includes unit ''month'' \<or> unit = ''m'' then val * 30 * 24 * 60 * 60
      else if js_includes unit ''day'' \<or> unit = ''d'' then val * 24 * 60 * 60
      else if js_includes unit ''hour'' \<or> unit = ''h'' then val * 60 * 60
      else if js_includes unit ''minute'' \<or> unit = ''min'' then val * 60
      else val)"

definition seconds_of_match :: "string \<times> string option \<Rightarrow> int" where
  \<comment> \<open>the body of \<open>if (match)\<close>; the unit consists of ASCII letters\<close>
  "seconds_of_match m =
     (let val = decimal_value (fst m);
          unit = ascii_lower (case snd m of None \<Rightarrow> ''s'' | Some u \<Rightarrow> u)
      in to_seconds val unit)"

definition extractJWTExpiry :: "string \<Rightarrow> int option" where
  \<comment> \<open>\<open>None\<close> is \<open>null\<close>\<close>
  "extractJWTExpiry code =
     first_some (\<lambda>pat. map_option seconds_of_match (search_jwt pat code)) jwt_patterns"

definition first_jwt_match :: "string \<Rightarrow> (string \<times> string option) option" where
  \<comment> \<open>the value of \<open>match\<close> at which the loop of \<open>extractJWTExpiry\<close> returns\<close>
  "first_jwt_match code = first_some (\<lambda>pat. search_jwt pat code) jwt_patterns"

section \<open>Validators\<close>

text \<open>
  Every validator returns an object with the fields \<open>passed\<close>, \<open>issues\<close> and
  \<open>warnings\<close>; some add fields of their own. Console output is not modelled. File
  discovery by glob is outside the program: a validator receives the list
  \<open>routeFiles\<close> as discovered, each file with its path relative to the project.
\<close>

record validator_result =
  passed :: bool
  issues :: "string list"
  warnings :: "string list"

function decimal :: "nat \<Rightarrow> string" where
  \<comment> \<open>a number inside a template literal\<close>
  "decimal n = (if n < 10 then [''0123456789'' ! n] else decimal (n div 10) @ [''0123456789'' ! (n mod 10)])"
  by pat_completeness auto
termination
  by (relation "measure id") auto

declare decimal.simps [simp del]

subsection \<open>auth (modules/auth.js)\<close>

record vulnerable_route = route +
  rfile :: string

record auth_result = validator_result +
  vulnerableRoutes :: "vulnerable_route list"

definition versioned_api_route :: "string \<Rightarrow> bool" where
  \<comment> \<open>\<open>/\/api\/v\d+\/.*(?:user|admin|auth|profile|settings)/i\<close>\<close>
  "versioned_api_route s =
     test_some_index
       (\<lambda>t. ci_startsWith t ''/api/v''
            \<and> (let r = drop (length ''/api/v'') t
               in takeWhile is_digit r \<noteq> []
                  \<and> (case dropWhile is_digit r of
                        [] \<Rightarrow> False
                      | c # r' \<Rightarrow> c = CHR ''/''
                          \<and> list_ex (ci_includes (same_line r'))
                               [''user'', ''admin'', ''auth'', ''profile'', ''settings'']))) s"

definition sensitivePatterns :: "(string \<Rightarrow> bool) list" where
  "sensitivePatterns =
     [\<lambda>p. ci_startsWith p ''/admin'',
      \<lambda>p. ci_startsWith p ''/api/admin'',
      \<lambda>p. ci_includes p ''/users'',
      \<lambda>p. ci_includes p ''/profile'',
      \<lambda>p. ci_includes p ''/settings'',
      \<lambda>p. ci_includes p ''/account'',
      \<lambda>p. ci_includes p ''/dashboard'',
      \<lambda>p. ci_includes p ''/delete'',
      \<lambda>p. ci_includes p ''/update'',
      \<lambda>p. ci_includes p ''/create'',
      \<lambda>p. ci_includes p ''/edit'',
      \<lambda>p. ci_includes p ''/password'',
      \<lambda>p. ci_includes p ''/auth/change'',
      versioned_api_route]"

definition isSensitiveRoute :: "string \<Rightarrow> bool" where
  "isSensitiveRoute p = list_ex (\<lambda>pattern. pattern p) sensitivePatterns"

definition formatDuration :: "int \<Rightarrow> string" where
  "formatDuration seconds =
     (if seconds < 60 then decimal (nat seconds) @ '' seconds''
      else if seconds < 3600 then decimal (nat (seconds div 60)) @ '' minutes''
      else if seconds < 86400 then decimal (nat (seconds div 3600)) @ '' hours''
      else if seconds < 2592000 then decimal (nat (seconds div 86400)) @ '' days''
      else if seconds < 31536000 then decimal (nat (seconds div 2592000)) @ '' months''
      else decimal (nat (seconds div 31536000)) @ '' years'')"

definition missing_auth_issue :: "route \<Rightarrow> string \<Rightarrow> string" where
  "missing_auth_issue r rel =
     ''Route '' @ rmethod r @ '' '' @ path r @ '' missing auth middleware ('' @ rel @ '')''"

definition check_route :: "string \<Rightarrow> string \<Rightarrow> auth_result \<Rightarrow> route \<Rightarrow> auth_result" where
  \<comment> \<open>the body of \<open>routes.forEach\<close>\<close>
  "check_route rel code st r =
     (if isSensitiveRoute (path r)
      then (if \<not> hasAuthMiddleware code (line r)
            then st\<lparr>issues := issues st @ [missing_auth_issue r rel],
                    vulnerableRoutes := vulnerableRoutes st
                      @ [\<lparr>rmethod = rmethod r, path = path r, line = line r, rfile = rel\<rparr>]\<rparr>
            else st)
      else st)"

definition jwt_issue :: "int \<Rightarrow> string" where
  "jwt_issue e = ''JWT expiry too long: '' @ formatDuration e @ '' (recommended: < 7 days)''"

definition jwt_warning :: "int \<Rightarrow> string" where
  "jwt_warning e = ''JWT expiry is '' @ formatDuration e @ '' (recommended: < 7 days)''"

definition check_jwt :: "string \<Rightarrow> auth_result \<Rightarrow> auth_result" where
  "check_jwt code st =
     (case extractJWTExpiry code of
        None \<Rightarrow> st
      | Some jwtExpiry \<Rightarrow>
          (let maxRecommendedExpiry = 7 * 24 * 60 * 60;
               oneYearInSeconds = 365 * 24 * 60 * 60
           in if jwtExpiry > oneYearInSeconds
              then st\<lparr>issues := issues st @ [jwt_issue jwtExpiry]\<rparr>
              else if jwtExpiry > maxRecommendedExpiry
              then st\<lparr>warnings := warnings st @ [jwt_warning jwtExpiry]\<rparr>
              else st))"

definition analyze_file :: "auth_result \<Rightarrow> string \<times> fs_file \<Rightarrow> auth_result" where
  \<comment> \<open>one iteration of \<open>for (const filePath of routeFiles)\<close>; \<open>!code\<close> holds for
      \<open>null\<close> and for the empty text\<close>
  "analyze_file st f =
     (case readFile (snd f) of
        None \<Rightarrow> st
      | Some code \<Rightarrow>
          if code = [] then st
          else check_jwt code (foldl (check_route (fst f) code) st (extractRoutes code)))"

definition auth_validate :: "(string \<times> fs_file) list \<Rightarrow> auth_result" where
  "auth_validate routeFiles =
     (if routeFiles = []
      then \<lparr>passed = False, issues = [],
            warnings = [''No route files found. Make sure your project structure is standard.''],
            vulnerableRoutes = []\<rparr>
      else (let st = foldl analyze_file
                       \<lparr>passed = False, issues = [], warnings = [], vulnerableRoutes = []\<rparr>
                       routeFiles
            in if issues st = [] \<and> warnings st = []
               then \<lparr>passed = True, issues = [], warnings = [], vulnerableRoutes = []\<rparr>
               else st\<lparr>passed := (issues st = [])\<rparr>))"

subsection \<open>api (modules/api.js): the health-endpoint check\<close>

definition healthPatterns :: "string list" where
  "healthPatterns = [''/health'', ''/healthz'', ''/ping'', ''/status'', ''/api/health'']"

definition is_health_route :: "route \<Rightarrow> bool" where
  "is_health_route r =
     list_ex (\<lambda>pattern. path r = pattern \<or> startsWith (path r) (pattern @ ''/'')) healthPatterns"

fun hasHealthEndpoint :: "(string \<times> fs_file) list \<Rightarrow> bool" where
  \<comment> \<open>the loop that sets \<open>hasHealthEndpoint\<close> and breaks at the first file with a
      health route\<close>
  "hasHealthEndpoint [] = False"
| "hasHealthEndpoint (f # fs) =
     (case readFile (snd f) of
        None \<Rightarrow> hasHealthEndpoint fs
      | Some code \<Rightarrow>
          if code = [] then hasHealthEndpoint fs
          else if filter is_health_route (extractRoutes code) \<noteq> [] then True
          else hasHealthEndpoint fs)"

definition health_issues :: "(string \<times> fs_file) list \<Rightarrow> string list" where
  \<comment> \<open>the list \<open>issues\<close> the api validator returns for a non-empty \<open>routeFiles\<close>:
      the health check is the only place that pushes to it\<close>
  "health_issues routeFiles =
     (if \<not> hasHealthEndpoint routeFiles
      then [''/health endpoint missing (recommended for monitoring and load balancers)'']
      else [])"

subsection \<open>env (modules/env.js): the list of issues\<close>

definition upper_units :: "char \<Rightarrow> nat list" where
  \<comment> \<open>the code units of \<open>c.toUpperCase()\<close> for a code unit below 256: the sharp s
      becomes \<open>SS\<close>, the micro sign and the y with diaeresis leave the range\<close>
  "upper_units c =
     (let n = of_char c
      in if 97 \<le> n \<and> n \<le> 122 then [n - 32]
         else if n = 181 then [924]
         else if n = 223 then [83, 83]
         else if 224 \<le> n \<and> n \<le> 254 \<and> n \<noteq> 247 then [n - 32]
         else if n = 255 then [376]
         else [n])"

definition toUpperCase :: "string \<Rightarrow> nat list" where
  "toUpperCase s = concat (map upper_units s)"

definition secret_like :: "string \<Rightarrow> bool" where
  \<comment> \<open>\<open>/SECRET|KEY|PASSWORD|TOKEN/i.test(key)\<close>\<close>
  "secret_like key = list_ex (ci_includes key) [''secret'', ''key'', ''password'', ''token'']"

definition empty_issue :: "string \<Rightarrow> string" where
  "empty_issue key = ''EMPTY: '' @ key @ '' is empty''"

definition weak_secret_issue :: "string \<Rightarrow> string" where
  "weak_secret_issue key = ''WEAK SECRET: '' @ key @ '' (length < 32)''"

definition secret_issues :: "string obj \<Rightarrow> string \<Rightarrow> string list" where
  \<comment> \<open>what the body of \<open>secretKeys.forEach\<close> pushes to \<open>issues\<close>; the third branch
      pushes a warning. \<open>!value\<close> holds for \<open>undefined\<close> and for the empty text.\<close>
  "secret_issues actualVars key =
     (case obj_get actualVars key of
        None \<Rightarrow> [empty_issue key]
      | Some val \<Rightarrow>
          if val = [] then [empty_issue key]
          else if length val < 32 \<and> js_includes (toUpperCase key) (map of_char ''SECRET'')
          then [weak_secret_issue key]
          else [])"

definition env_issues :: "fs_file \<Rightarrow> fs_file \<Rightarrow> string list" where
  \<comment> \<open>the field \<open>issues\<close> of the result of the env validator, for the files \<open>.env\<close>
      and \<open>.env.example\<close> of the project. Only the pushes to \<open>issues\<close> are modelled:
      the warnings depend on the URL parser of the platform.\<close>
  "env_issues envFile envExampleFile =
     (let envExists = fileExists envFile;
          envExampleExists = fileExists envExampleFile;
          issues0 = (if \<not> envExists then [''MISSING: .env file not found''] else []);
          expectedVars = (if envExampleExists then parseEnvFile envExampleFile else []);
          actualVars = (if envExists then parseEnvFile envFile else []);
          missingVars = filter (\<lambda>key. \<not> js_in key actualVars) (Object_keys expectedVars);
          issues1 = issues0 @ map (\<lambda>key. ''MISSING: '' @ key) missingVars;
          secretKeys = filter secret_like (Object_keys actualVars)
      in issues1 @ concat (map (secret_issues actualVars) secretKeys))"

subsection \<open>dependencies (modules/dependencies.js)\<close>

text \<open>
  \<open>JSON.parse\<close> belongs to the platform. The validator sees one of three things: no file
  \<open>package.json\<close>, a \<open>SyntaxError\<close> from the parser, or the parsed value. The parsed
  value is \<open>null\<close> for the text \<open>null\<close> and also for a file that exists but cannot be
  read, since \<open>readFile\<close> then gives \<open>null\<close> and \<open>JSON.parse(null)\<close> is \<open>null\<close>. An
  object lists its members in order, with distinct keys. Of a number only its being
  zero is ever read, so integers stand for all numbers.
\<close>

datatype json = JNull | JBool bool | JNum int | JStr string | JArr "json list"
  | JObj "(string \<times> json) list"

datatype package_json = NotFound | Malformed | Parsed json

datatype js_error = TypeError

record dependencies_result = validator_result +
  totalDependencies :: "nat option"

definition truthy :: "json option \<Rightarrow> bool" where
  \<comment> \<open>\<open>None\<close> is \<open>undefined\<close>\<close>
  "truthy v =
     (case v of
        None \<Rightarrow> False
      | Some JNull \<Rightarrow> False
      | Some (JBool b) \<Rightarrow> b
      | Some (JNum n) \<Rightarrow> n \<noteq> 0
      | Some (JStr s) \<Rightarrow> s \<noteq> []
      | Some _ \<Rightarrow> True)"

definition get_member :: "json \<Rightarrow> string \<Rightarrow> js_error + json option" where
  \<comment> \<open>\<open>v.name\<close> for the names the validator reads (\<open>dependencies\<close>,
      \<open>devDependencies\<close>, \<open>scripts\<close>, \<open>start\<close>), none of which a prototype defines:
      reading a member of \<open>null\<close> throws, a primitive or an array has no such member\<close>
  "get_member v name =
     (case v of
        JNull \<Rightarrow> Inl TypeError
      | JObj members \<Rightarrow> Inr (map_of members name)
      | _ \<Rightarrow> Inr None)"

definition own_enumerable :: "json option \<Rightarrow> (string \<times> json) list" where
  \<comment> \<open>the properties that \<open>{...v}\<close> copies\<close>
  "own_enumerable v =
     (case v of
        Some (JObj members) \<Rightarrow> members
      | Some (JStr s) \<Rightarrow> zip (map decimal [0..<length s]) (map (\<lambda>c. JStr [c]) s)
      | Some (JArr xs) \<Rightarrow> zip (map decimal [0..<length xs]) xs
      | _ \<Rightarrow> [])"

definition spread2 :: "json option \<Rightarrow> json option \<Rightarrow> (string \<times> json) list" where
  \<comment> \<open>\<open>{ ...a, ...b }\<close>\<close>
  "spread2 a b = foldl (\<lambda>ob kv. AList.update (fst kv) (snd kv) ob) [] (own_enumerable a @ own_enumerable b)"

fun remove_first :: "(char \<Rightarrow> bool) \<Rightarrow> string \<Rightarrow> string" where
  \<comment> \<open>\<open>s.replace(/[...]/, '')\<close>\<close>
  "remove_first P [] = []"
| "remove_first P (c # cs) = (if P c then cs else c # remove_first P cs)"

definition outdated_check :: "(string \<times> json) list \<Rightarrow> string \<Rightarrow> js_error + string list" where
  \<comment> \<open>the body of \<open>Object.keys(vulnerablePatterns).forEach\<close>: the warnings it pushes.
      Only a string has a function \<open>replace\<close>.\<close>
  "outdated_check deps pkg =
     (if truthy (map_of deps pkg)
      then (case map_of deps pkg of
              Some (JStr s) \<Rightarrow>
                (let version = remove_first (\<lambda>c. c = CHR 0x5E \<or> c = CHR ''~'') s
                 in if version \<noteq> [] \<and> js_includes version ''4.'' \<and> pkg = ''express''
                    then Inr [pkg @ '' version might be outdated - Older versions have security vulnerabilities'']
                    else Inr [])
            | _ \<Rightarrow> Inl TypeError)
      else Inr [])"

definition start_script_check :: "json \<Rightarrow> js_error + string list" where
  \<comment> \<open>\<open>if (packageJson.scripts && packageJson.scripts.start) ...\<close> for a
      \<open>packageJson\<close> other than \<open>null\<close>. A string and an array have a function
      \<open>includes\<close>, nothing else has.\<close>
  "start_script_check packageJson =
     (case get_member packageJson ''scripts'' of
        Inl e \<Rightarrow> Inl e
      | Inr scripts \<Rightarrow>
          if \<not> truthy scripts then Inr []
          else (case scripts of
                  Some (JObj members) \<Rightarrow>
                    (let startScript = map_of members ''start'';
                         w = [''Development tools in start script (use production tools in production)'']
                     in if \<not> truthy startScript then Inr []
                        else (case startScript of
                                Some (JStr s) \<Rightarrow>
                                  if js_includes s ''nodemon'' \<or> js_includes s ''ts-node-dev''
                                  then Inr w else Inr []
                              | Some (JArr xs) \<Rightarrow>
                                  if JStr ''nodemon'' \<in> set xs \<or> JStr ''ts-node-dev'' \<in> set xs
                                  then Inr w else Inr []
                              | _ \<Rightarrow> Inl TypeError))
                | _ \<Rightarrow> Inr []))"

definition dependencies_validate ::
  "package_json \<Rightarrow> bool \<Rightarrow> bool \<Rightarrow> string \<Rightarrow> int \<Rightarrow> js_error + dependencies_result" where
  \<comment> \<open>\<open>nodeVersion\<close> is \<open>process.version\<close> and \<open>nodeMajor\<close> its major number\<close>
  "dependencies_validate pj packageLockExists yarnLockExists nodeVersion nodeMajor =
     (case pj of
        NotFound \<Rightarrow>
          Inr \<lparr>passed = False, issues = [''package.json not found''], warnings = [],
               totalDependencies = None\<rparr>
      | Malformed \<Rightarrow>
          Inr \<lparr>passed = False, issues = [''package.json is malformed''], warnings = [],
               totalDependencies = None\<rparr>
      | Parsed packageJson \<Rightarrow>
          (let issues0 = [];
               hasLockFile = (packageLockExists \<or> yarnLockExists);
               w1 = (if \<not> hasLockFile
                     then [''Lock file (package-lock.json or yarn.lock) not found (recommended for reproducible builds)'']
                     else [])
           in case get_member packageJson ''dependencies'' of
                Inl e \<Rightarrow> Inl e
              | Inr d \<Rightarrow>
           (case get_member packageJson ''devDependencies'' of
                Inl e \<Rightarrow> Inl e
              | Inr dd \<Rightarrow>
           (let deps = spread2 d dd;
                hasFramework = list_ex (\<lambda>dep. truthy (map_of deps dep))
                                 [''express'', ''fastify'', ''koa'', ''nestjs''];
                w2 = w1 @ (if \<not> hasFramework
                           then [''No major web framework detected (Express, Fastify, Koa, NestJS)'']
                           else []);
                w3 = w2 @ (if nodeMajor < 14
                           then [''Node.js version '' @ nodeVersion @ '' is outdated (recommended: >= 14.0.0)'']
                           else []);
                missingSecurity = filter (\<lambda>pkg. \<not> truthy (map_of deps pkg))
                                    [''helmet'', ''cors'', ''express-rate-limit'', ''bcrypt'', ''jsonwebtoken''];
                w4 = w3 @ (if missingSecurity \<noteq> []
                           then [''Missing security packages: '' @ join '', '' missingSecurity]
                           else [])
            in case outdated_check deps ''express'' of
                 Inl e \<Rightarrow> Inl e
               | Inr we \<Rightarrow>
            (case outdated_check deps ''lodash'' of
                 Inl e \<Rightarrow> Inl e
               | Inr wl \<Rightarrow>
            (let totalDeps = length deps;
                 w5 = w4 @ we @ wl
                        @ (if totalDeps > 100
                           then [''Large number of dependencies ('' @ decimal totalDeps
                                  @ '') - consider reviewing for unused packages'']
                           else [])
             in case start_script_check packageJson of
                  Inl e \<Rightarrow> Inl e
                | Inr ws \<Rightarrow>
                    (let w6 = w5 @ ws @ [''Run \"npm audit\" to check for known vulnerabilities'']
                     in if issues0 = [] \<and> w6 = []
                        then Inr \<lparr>passed = True, issues = [], warnings = [],
                                  totalDependencies = None\<rparr>
                        else Inr \<lparr>passed = (issues0 = []), issues = issues0, warnings = w6,
                                  totalDependencies = Some totalDeps\<rparr>)))))))"

definition well_typed_package :: "json \<Rightarrow> bool" where
  \<comment> \<open>a \<open>package.json\<close> on which no member access of the validator throws: an object
      whose \<open>express\<close> and \<open>lodash\<close> versions, if truthy, are strings and whose start
      script, if truthy, is a string or an array\<close>
  "well_typed_package v =
     (case v of
        JNull \<Rightarrow> False
      | _ \<Rightarrow>
        (case (get_member v ''dependencies'', get_member v ''devDependencies'') of
           (Inr d, Inr dd) \<Rightarrow>
             (\<forall>pkg \<in> {''express'', ''lodash''}.
                 truthy (map_of (spread2 d dd) pkg)
                 \<longrightarrow> (\<exists>s. map_of (spread2 d dd) pkg = Some (JStr s)))
         | _ \<Rightarrow> False)
        \<and> (case get_member v ''scripts'' of
              Inr (Some (JObj members)) \<Rightarrow>
                truthy (map_of members ''start'')
                \<longrightarrow> (\<exists>s. map_of members ''start'' = Some (JStr s))
                    \<or> (\<exists>xs. map_of members ''start'' = Some (JArr xs))
            | _ \<Rightarrow> True))"

section \<open>Report aggregator (modules/report.js)\<close>

text \<open>
  \<open>generate\<close> awaits the validators one after the other, so an exception of one of them
  ends it. The validators are a parameter: \<open>validate name\<close> is what module \<open>name\<close>
  returns for the project, or the exception it throws. The totals are what the summary
  prints.
\<close>

record report =
  allPassed :: bool
  results :: "(string \<times> validator_result) list"
  totalIssues :: nat
  totalWarnings :: nat

definition allModules :: "string list" where
  "allModules = [''env'', ''auth'', ''api'', ''project'', ''security'', ''dependencies'', ''database'']"

fun run_modules ::
  "(string \<Rightarrow> js_error + validator_result) \<Rightarrow> string list \<Rightarrow> string list
   \<Rightarrow> (string \<times> validator_result) list \<Rightarrow> js_error + (string \<times> validator_result) list" where
  \<comment> \<open>the loop \<open>for (const [name, module] of Object.entries(allModules))\<close>\<close>
  "run_modules validate skip [] res = Inr res"
| "run_modules validate skip (name # names) res =
     (if name \<notin> set skip
      then (case validate name of
              Inl e \<Rightarrow> Inl e
            | Inr r \<Rightarrow> run_modules validate skip names (res @ [(name, r)]))
      else run_modules validate skip names res)"

definition generate ::
  "(string \<Rightarrow> js_error + validator_result) \<Rightarrow> string list \<Rightarrow> js_error + report" where
  "generate validate skip =
     (case run_modules validate skip allModules [] of
        Inl e \<Rightarrow> Inl e
      | Inr res \<Rightarrow>
          Inr \<lparr>allPassed = list_all (\<lambda>result. passed result) (map snd res),
               results = res,
               totalIssues = foldl (\<lambda>sum result. sum + length (issues result)) 0 (map snd res),
               totalWarnings = foldl (\<lambda>sum result. sum + length (warnings result)) 0 (map snd res)\<rparr>)"

definition modules_run :: "string list \<Rightarrow> string list" where
  \<comment> \<open>the modules \<open>generate\<close> calls, in order: those with \<open>!skip.includes(name)\<close>\<close>
  "modules_run skip = filter (\<lambda>name. name \<notin> set skip) allModules"

section \<open>Properties of the auth validator\<close>

lemma check_route_issues_mono: "set (issues st) \<subseteq> set (issues (check_route rel code st r))"
  by (auto simp: check_route_def)

lemma foldl_check_route_issues_mono:
  "set (issues st) \<subseteq> set (issues (foldl (check_route rel code) st rs))"
proof (induction rs arbitrary: st)
  case Nil
  show ?case by simp
next
  case (Cons r rs)
  have "set (issues st) \<subseteq> set (issues (check_route rel code st r))"
    by (rule check_route_issues_mono)
  also have "\<dots> \<subseteq> set (issues (foldl (check_route rel code) (check_route rel code st r) rs))"
    by (rule Cons.IH)
  finally show ?case by simp
qed

lemma check_jwt_issues_mono: "set (issues st) \<subseteq> set (issues (check_jwt code st))"
  by (auto simp: check_jwt_def Let_def split: option.splits)

lemma analyze_file_issues_mono: "set (issues st) \<subseteq> set (issues (analyze_file st f))"
  using foldl_check_route_issues_mono check_jwt_issues_mono
  by (fastforce simp: analyze_file_def split: option.splits)

lemma foldl_analyze_file_issues_mono:
  "set (issues st) \<subseteq> set (issues (foldl analyze_file st fs))"
proof (induction fs arbitrary: st)
  case Nil
  show ?case by simp
next
  case (Cons f fs)
  have "set (issues st) \<subseteq> set (issues (analyze_file st f))"
    by (rule analyze_file_issues_mono)
  also have "\<dots> \<subseteq> set (issues (foldl analyze_file (analyze_file st f) fs))"
    by (rule Cons.IH)
  finally show ?case by simp
qed

lemma check_jwt_long:
  assumes "extractJWTExpiry code = Some e" and "31536000 < e"
  shows "issues (check_jwt code st) = issues st @ [jwt_issue e]"
    and "warnings (check_jwt code st) = warnings st"
  using assms by (simp_all add: check_jwt_def)

lemma extractJWTExpiry_empty: "extractJWTExpiry [] = None"
  by (simp add: extractJWTExpiry_def jwt_patterns_def)

lemma analyze_file_long_expiry:
  assumes "extractJWTExpiry code = Some e" and "31536000 < e"
  shows "jwt_issue e \<in> set (issues (analyze_file st (rel, Content code)))"
proof -
  from assms(1) have "code \<noteq> []" using extractJWTExpiry_empty by auto
  then show ?thesis
    using check_jwt_long(1)[OF assms] by (simp add: analyze_file_def readFile_def)
qed

lemma foldl_analyze_file_long_expiry:
  assumes "(rel, Content code) \<in> set fs" and "extractJWTExpiry code = Some e" and "31536000 < e"
  shows "jwt_issue e \<in> set (issues (foldl analyze_file st fs))"
  using assms(1)
proof (induction fs arbitrary: st)
  case Nil
  then show ?case by simp
next
  case (Cons f fs)
  show ?case
  proof (cases "f = (rel, Content code)")
    case True
    have "jwt_issue e \<in> set (issues (analyze_file st f))"
      unfolding True by (rule analyze_file_long_expiry[OF assms(2,3)])
    then show ?thesis using foldl_analyze_file_issues_mono[of "analyze_file st f" fs] by auto
  next
    case False
    with Cons.prems have "(rel, Content code) \<in> set fs" by simp
    from Cons.IH[OF this] show ?thesis by simp
  qed
qed

lemma auth_validate_issues:
  "routeFiles \<noteq> [] \<Longrightarrow>
   issues (auth_validate routeFiles)
     = issues (foldl analyze_file
                 \<lparr>passed = False, issues = [], warnings = [], vulnerableRoutes = []\<rparr> routeFiles)"
  by (simp add: auth_validate_def Let_def)

lemma auth_validate_passed:
  "passed (auth_validate routeFiles) = (routeFiles \<noteq> [] \<and> issues (auth_validate routeFiles) = [])"
  by (simp add: auth_validate_def Let_def)

text \<open>
  Claim C4. The JWT expiry extractor converts \<open>expiresIn: '30d'\<close> to exactly 2,592,000
  seconds. For any route file whose extracted expiry exceeds 31,536,000 seconds (one
  year), the auth validator records the issue \<open>JWT expiry too long\<close> and does not
  pass, and the expiry check of that file pushes no warning.
\<close>

theorem jwt_expiry_conversion_and_year_threshold:
  "extractJWTExpiry (''expiresIn: '30d'' @ [CHR 0x27]) = Some 2592000
   \<and> ((rel, Content code) \<in> set routeFiles \<and> extractJWTExpiry code = Some e \<and> 31536000 < e
        \<longrightarrow> jwt_issue e \<in> set (issues (auth_validate routeFiles))
            \<and> \<not> passed (auth_validate routeFiles)
            \<and> warnings (check_jwt code st) = warnings st)"
proof (intro conjI impI)
  show "extractJWTExpiry (''expiresIn: '30d'' @ [CHR 0x27]) = Some 2592000"
    by code_simp
next
  assume a: "(rel, Content code) \<in> set routeFiles \<and> extractJWTExpiry code = Some e \<and> 31536000 < e"
  then have ne: "routeFiles \<noteq> []" by auto
  from a show i: "jwt_issue e \<in> set (issues (auth_validate routeFiles))"
    using foldl_analyze_file_long_expiry[of rel code routeFiles e]
    by (simp add: auth_validate_issues[OF ne])
  then show "\<not> passed (auth_validate routeFiles)"
    by (auto simp: auth_validate_passed)
  from a show "warnings (check_jwt code st) = warnings st"
    by (simp add: check_jwt_long(2))
qed

theorem jwt_expiry_400d_witness:
  "extractJWTExpiry (''expiresIn: '30d'' @ [CHR 0x27]) = Some 2592000
   \<and> extractJWTExpiry ''jwt.sign(u, k, { expiresIn: \"400d\" })'' = Some 34560000
   \<and> issues (auth_validate [(''auth.js'', Content ''jwt.sign(u, k, { expiresIn: \"400d\" })'')])
       = [''JWT expiry too long: 1 years (recommended: < 7 days)'']
   \<and> \<not> passed (auth_validate [(''auth.js'', Content ''jwt.sign(u, k, { expiresIn: \"400d\" })'')])"
proof -
  have e: "extractJWTExpiry ''jwt.sign(u, k, { expiresIn: \"400d\" })'' = Some 34560000"
    by code_simp
  have i: "issues (auth_validate [(''auth.js'', Content ''jwt.sign(u, k, { expiresIn: \"400d\" })'')])
       = [''JWT expiry too long: 1 years (recommended: < 7 days)'']"
    by code_simp
  show ?thesis
    using jwt_expiry_conversion_and_year_threshold
      [of "''auth.js''" "''jwt.sign(u, k, { expiresIn: \"400d\" })''"
          "[(''auth.js'', Content ''jwt.sign(u, k, { expiresIn: \"400d\" })'')]" 34560000]
      e i
    by simp
qed

section \<open>Properties of the expiry extractor\<close>

lemma first_some_map_option:
  "first_some (\<lambda>x. map_option g (f x)) xs = map_option g (first_some f xs)"
  by (induction xs) (auto split: option.splits)

lemma extractJWTExpiry_first_match:
  "extractJWTExpiry code = map_option seconds_of_match (first_jwt_match code)"
  by (simp add: extractJWTExpiry_def first_jwt_match_def first_some_map_option)

lemma to_seconds_m: "to_seconds val ''m'' = val * 2592000"
  by (simp add: to_seconds_def startsWith_def)

lemma to_seconds_minutes:
  assumes "to_seconds val unit = val * 60" and "val \<noteq> 0"
  shows "js_includes unit ''minute'' \<or> unit = ''min''"
  using assms by (auto simp: to_seconds_def split: if_splits)

text \<open>
  Claim C10. When the match that \<open>extractJWTExpiry\<close> uses carries the bare unit \<open>m\<close>
  (as in \<open>expiresIn: '15m'\<close>), the result is the value times 2,592,000 seconds, the
  month multiplier. A non-zero value is converted as minutes (value times 60) only
  when the unit contains \<open>minute\<close> or equals \<open>min\<close>.
\<close>

theorem bare_m_is_months:
  "(first_jwt_match code = Some (d, Some u) \<and> ascii_lower u = ''m''
      \<longrightarrow> extractJWTExpiry code = Some (decimal_value d * 2592000))
   \<and> (first_jwt_match code = Some (d, ou) \<and> decimal_value d \<noteq> 0
        \<and> extractJWTExpiry code = Some (decimal_value d * 60)
      \<longrightarrow> (\<exists>u. ou = Some u
            \<and> (js_includes (ascii_lower u) ''minute'' \<or> ascii_lower u = ''min'')))"
proof (intro conjI impI)
  assume "first_jwt_match code = Some (d, Some u) \<and> ascii_lower u = ''m''"
  then show "extractJWTExpiry code = Some (decimal_value d * 2592000)"
    by (simp add: extractJWTExpiry_first_match seconds_of_match_def to_seconds_m)
next
  assume a: "first_jwt_match code = Some (d, ou) \<and> decimal_value d \<noteq> 0
        \<and> extractJWTExpiry code = Some (decimal_value d * 60)"
  then have s: "to_seconds (decimal_value d) (ascii_lower (case ou of None \<Rightarrow> ''s'' | Some u \<Rightarrow> u))
                  = decimal_value d * 60"
    by (auto simp: extractJWTExpiry_first_match seconds_of_match_def)
  from to_seconds_minutes[OF s] a
  have m: "js_includes (ascii_lower (case ou of None \<Rightarrow> ''s'' | Some u \<Rightarrow> u)) ''minute''
           \<or> ascii_lower (case ou of None \<Rightarrow> ''s'' | Some u \<Rightarrow> u) = ''min''"
    by simp
  show "\<exists>u. ou = Some u \<and> (js_includes (ascii_lower u) ''minute'' \<or> ascii_lower u = ''min'')"
  proof (cases ou)
    case None
    with m show ?thesis by (simp add: ascii_lower_def lower_char_def startsWith_def)
  next
    case (Some u)
    with m show ?thesis by simp
  qed
qed

theorem bare_m_is_months_witness:
  "first_jwt_match (''expiresIn: '15m'' @ [CHR 0x27]) = Some (''15'', Some ''m'')
   \<and> extractJWTExpiry (''expiresIn: '15m'' @ [CHR 0x27]) = Some 38880000
   \<and> first_jwt_match ''expiresIn: \"15 Minutes\"'' = Some (''15'', Some ''Minutes'')
   \<and> extractJWTExpiry ''expiresIn: \"15 Minutes\"'' = Some 900
   \<and> js_includes (ascii_lower ''Minutes'') ''minute''"
proof -
  have m1: "first_jwt_match (''expiresIn: '15m'' @ [CHR 0x27]) = Some (''15'', Some ''m'')"
    by code_simp
  have m2: "first_jwt_match ''expiresIn: \"15 Minutes\"'' = Some (''15'', Some ''Minutes'')"
    by code_simp
  have e2: "extractJWTExpiry ''expiresIn: \"15 Minutes\"'' = Some 900"
    by code_simp
  have d: "decimal_value ''15'' = 15" by (simp add: decimal_value_def)
  have l: "ascii_lower ''m'' = ''m''" by (simp add: ascii_lower_def lower_char_def)
  from bare_m_is_months[of "''expiresIn: '15m'' @ [CHR 0x27]" "''15''" "''m''"] m1 d l
  have c1: "extractJWTExpiry (''expiresIn: '15m'' @ [CHR 0x27]) = Some 38880000"
    by simp
  from bare_m_is_months[of "''expiresIn: \"15 Minutes\"''" "''15''" _ "Some ''Minutes''"] m2 e2 d
  have c2: "js_includes (ascii_lower ''Minutes'') ''minute'' \<or> ascii_lower ''Minutes'' = ''min''"
    by simp
  have c3: "ascii_lower ''Minutes'' \<noteq> ''min''" by (simp add: ascii_lower_def)
  from m1 c1 m2 e2 c2 c3 show ?thesis by blast
qed

section \<open>Properties of the report aggregator\<close>

lemma run_modules_closed_form:
  assumes "\<forall>name \<in> set (filter (\<lambda>name. name \<notin> set skip) names). validate name = Inr (res name)"
  shows "run_modules validate skip names acc
           = Inr (acc @ map (\<lambda>name. (name, res name)) (filter (\<lambda>name. name \<notin> set skip) names))"
  using assms
proof (induction names arbitrary: acc)
  case Nil
  show ?case by simp
next
  case (Cons name names)
  then have ih: "\<And>acc. run_modules validate skip names acc
           = Inr (acc @ map (\<lambda>name. (name, res name)) (filter (\<lambda>name. name \<notin> set skip) names))"
    by simp
  show ?case
  proof (cases "name \<in> set skip")
    case True
    then show ?thesis by (simp add: ih)
  next
    case False
    with Cons.prems have "validate name = Inr (res name)" by simp
    with False show ?thesis by (simp add: ih)
  qed
qed

lemma foldl_count:
  "foldl (\<lambda>sum result. sum + f result) (a::nat) rs = a + sum_list (map f rs)"
  by (induction rs arbitrary: a) simp_all

text \<open>
  Claim C5. For every list of modules given to \<open>--skip\<close>, when the modules actually
  run return their results, the report holds exactly those modules in the fixed order;
  the overall verdict is the conjunction of their \<open>passed\<close> fields, and the totals of
  issues and of warnings sum over exactly those modules. A skipped module is not called
  and contributes to neither.
\<close>

theorem generate_over_modules_run:
  assumes "\<forall>name \<in> set (modules_run skip). validate name = Inr (res name)"
  shows "\<exists>rep. generate validate skip = Inr rep
           \<and> map fst (results rep) = modules_run skip
           \<and> (allPassed rep \<longleftrightarrow> (\<forall>name \<in> set (modules_run skip). passed (res name)))
           \<and> totalIssues rep = (\<Sum>name\<leftarrow>modules_run skip. length (issues (res name)))
           \<and> totalWarnings rep = (\<Sum>name\<leftarrow>modules_run skip. length (warnings (res name)))"
proof -
  let ?run = "modules_run skip"
  have r: "run_modules validate skip allModules [] = Inr (map (\<lambda>name. (name, res name)) ?run)"
    using run_modules_closed_form[of skip allModules validate res "[]"] assms
    by (simp add: modules_run_def)
  have s: "map snd (map (\<lambda>name. (name, res name)) ?run) = map res ?run"
    by simp
  have f: "map fst (map (\<lambda>name. (name, res name)) ?run) = ?run"
    by (simp add: comp_def)
  show ?thesis
    unfolding generate_def r
    by (simp add: foldl_count list_all_iff comp_def)
qed

theorem generate_skip_api_witness:
  "generate (\<lambda>name. Inr \<lparr>passed = (name \<noteq> ''api''), issues = [name, name], warnings = [name]\<rparr>) [''api'']
     = Inr \<lparr>allPassed = True,
            results = map (\<lambda>name. (name, \<lparr>passed = True, issues = [name, name], warnings = [name]\<rparr>))
                        [''env'', ''auth'', ''project'', ''security'', ''dependencies'', ''database''],
            totalIssues = 12, totalWarnings = 6\<rparr>
   \<and> modules_run [''api''] = [''env'', ''auth'', ''project'', ''security'', ''dependencies'', ''database'']"
proof -
  let ?v = "\<lambda>name. Inr \<lparr>passed = (name \<noteq> ''api''), issues = [name, name], warnings = [name]\<rparr>
              :: js_error + validator_result"
  let ?res = "\<lambda>name. \<lparr>passed = (name \<noteq> ''api''), issues = [name, name], warnings = [name]\<rparr>"
  have m: "modules_run [''api''] = [''env'', ''auth'', ''project'', ''security'', ''dependencies'', ''database'']"
    by (simp add: modules_run_def allModules_def)
  have "\<forall>name \<in> set (modules_run [''api'']). ?v name = Inr (?res name)" by simp
  from generate_over_modules_run[OF this]
  obtain rep where g: "generate ?v [''api''] = Inr rep"
    and p: "allPassed rep \<longleftrightarrow> (\<forall>name \<in> set (modules_run [''api'']). passed (?res name))"
    and i: "totalIssues rep = (\<Sum>name\<leftarrow>modules_run [''api'']. length (issues (?res name)))"
    by blast
  have e: "generate ?v [''api'']
     = Inr \<lparr>allPassed = True,
            results = map (\<lambda>name. (name, \<lparr>passed = True, issues = [name, name], warnings = [name]\<rparr>))
                        [''env'', ''auth'', ''project'', ''security'', ''dependencies'', ''database''],
            totalIssues = 12, totalWarnings = 6\<rparr>"
    by (simp add: generate_def allModules_def)
  from e g p i m show ?thesis by simp
qed

section \<open>Properties of the dependencies validator\<close>

lemma get_member_not_null: "v \<noteq> JNull \<Longrightarrow> \<exists>m. get_member v name = Inr m"
  by (cases v) (simp_all add: get_member_def)

lemma outdated_check_ok:
  "truthy (map_of deps pkg) \<longrightarrow> (\<exists>s. map_of deps pkg = Some (JStr s))
   \<Longrightarrow> \<exists>w. outdated_check deps pkg = Inr w"
  by (auto simp: outdated_check_def Let_def)

lemma start_script_check_ok:
  assumes "v \<noteq> JNull"
    and "case get_member v ''scripts'' of
              Inr (Some (JObj members)) \<Rightarrow>
                truthy (map_of members ''start'')
                \<longrightarrow> (\<exists>s. map_of members ''start'' = Some (JStr s))
                    \<or> (\<exists>xs. map_of members ''start'' = Some (JArr xs))
            | _ \<Rightarrow> True"
  shows "\<exists>w. start_script_check v = Inr w"
proof -
  from get_member_not_null[OF assms(1)] obtain m where m: "get_member v ''scripts'' = Inr m" by blast
  show ?thesis
  proof (cases m)
    case None
    with m show ?thesis by (simp add: start_script_check_def truthy_def)
  next
    case (Some sv)
    show ?thesis
    proof (cases sv)
      case (JObj members)
      with Some m assms(2) show ?thesis
        by (auto simp: start_script_check_def Let_def)
    qed (use Some m in \<open>simp_all add: start_script_check_def\<close>)
  qed
qed

lemma dependencies_validate_well_typed:
  assumes "well_typed_package v"
  shows "\<exists>r. dependencies_validate (Parsed v) pl yl nv nm = Inr r
             \<and> passed r \<and> issues r = [] \<and> warnings r \<noteq> []"
proof -
  from assms have nn: "v \<noteq> JNull" by (auto simp: well_typed_package_def)
  from get_member_not_null[OF nn] obtain d where d: "get_member v ''dependencies'' = Inr d" by blast
  from get_member_not_null[OF nn] obtain dd where dd: "get_member v ''devDependencies'' = Inr dd" by blast
  from assms nn d dd have t: "\<forall>pkg \<in> {''express'', ''lodash''}.
                 truthy (map_of (spread2 d dd) pkg)
                 \<longrightarrow> (\<exists>s. map_of (spread2 d dd) pkg = Some (JStr s))"
    and sc: "case get_member v ''scripts'' of
              Inr (Some (JObj members)) \<Rightarrow>
                truthy (map_of members ''start'')
                \<longrightarrow> (\<exists>s. map_of members ''start'' = Some (JStr s))
                    \<or> (\<exists>xs. map_of members ''start'' = Some (JArr xs))
            | _ \<Rightarrow> True"
    by (cases v; simp add: well_typed_package_def)+
  from t obtain we where we: "outdated_check (spread2 d dd) ''express'' = Inr we"
    using outdated_check_ok[of "spread2 d dd" "''express''"] by auto
  from t obtain wl where wl: "outdated_check (spread2 d dd) ''lodash'' = Inr wl"
    using outdated_check_ok[of "spread2 d dd" "''lodash''"] by auto
  from start_script_check_ok[OF nn sc] obtain ws where ws: "start_script_check v = Inr ws" by blast
  show ?thesis
    by (simp add: dependencies_validate_def Let_def d dd we wl ws)
qed

text \<open>The two early returns, and one more input on which a member access throws.\<close>

lemma dependencies_validate_early_returns:
  "dependencies_validate NotFound pl yl nv nm
     = Inr \<lparr>passed = False, issues = [''package.json not found''], warnings = [],
            totalDependencies = None\<rparr>"
  "dependencies_validate Malformed pl yl nv nm
     = Inr \<lparr>passed = False, issues = [''package.json is malformed''], warnings = [],
            totalDependencies = None\<rparr>"
  by (simp_all add: dependencies_validate_def)

lemma dependencies_validate_number_version_throws:
  "dependencies_validate (Parsed (JObj [(''dependencies'', JObj [(''express'', JNum 4)])])) pl yl nv nm
     = Inl TypeError"
  by (simp add: dependencies_validate_def get_member_def spread2_def own_enumerable_def
        truthy_def outdated_check_def)

text \<open>
  Claim C7. The dependencies validator fails iff \<open>package.json\<close> is missing or cannot
  be parsed, and in every other case returns \<open>passed = true\<close> with warnings only. The
  two early returns and the well-typed case are as claimed (lemmas
  \<open>dependencies_validate_early_returns\<close> and \<open>dependencies_validate_well_typed\<close>), but
  a \<open>package.json\<close> that parses to \<open>null\<close> gets past the \<open>try\<close> around
  \<open>JSON.parse\<close>, and the validator then throws a \<open>TypeError\<close> at
  \<open>packageJson.dependencies\<close> instead of returning a result.
\<close>

theorem dependencies_validate_null_throws:
  "dependencies_validate (Parsed JNull) packageLockExists yarnLockExists nodeVersion nodeMajor
     = Inl TypeError"
  by (simp add: dependencies_validate_def get_member_def)

section \<open>Health endpoint and sensitive routes\<close>

lemma extractRoutes_empty: "extractRoutes [] = []"
  by (simp add: extractRoutes_def patterns_def exec_loop.simps exec_def)

lemma hasHealthEndpoint_intro:
  assumes "(rel, Content code) \<in> set routeFiles"
    and "r \<in> set (extractRoutes code)" and "is_health_route r"
  shows "hasHealthEndpoint routeFiles"
  using assms(1)
proof (induction routeFiles)
  case Nil
  then show ?case by simp
next
  case (Cons f fs)
  from assms(2) have ne: "code \<noteq> []" using extractRoutes_empty by auto
  from assms(2,3) have h: "filter is_health_route (extractRoutes code) \<noteq> []"
    by (auto simp: filter_empty_conv)
  show ?case
  proof (cases "f = (rel, Content code)")
    case True
    with ne h show ?thesis by (simp add: readFile_def)
  next
    case False
    with Cons have "hasHealthEndpoint fs" by simp
    then show ?thesis by (simp split: option.splits)
  qed
qed

lemma health_route_satisfies_requirement:
  assumes "(rel, Content code) \<in> set routeFiles"
    and "r \<in> set (extractRoutes code)" and "path r = ''/health''"
  shows "health_issues routeFiles = []"
proof -
  from assms(3) have "is_health_route r" by (simp add: is_health_route_def healthPatterns_def)
  from hasHealthEndpoint_intro[OF assms(1,2) this] show ?thesis by (simp add: health_issues_def)
qed

lemma app_get_health_extracted:
  "extractRoutes ''app.get('/health', handler)''
     = [\<lparr>rmethod = ''GET'', path = ''/health'', line = 1\<rparr>,
        \<lparr>rmethod = ''GET'', path = ''/health'', line = 1\<rparr>]"
  by code_simp

lemma accounts_is_sensitive: "isSensitiveRoute ''/accounts''"
  by code_simp

lemma Route_get_accounts_one_issue:
  "issues (auth_validate [(''routes.js'', Content ''Route.get('/accounts', handler)'')])
     = [''Route GET /accounts missing auth middleware (routes.js)'']"
  by code_simp

text \<open>
  Claim C1. A route file that registers \<open>app.get('/health', ...)\<close> satisfies the
  health-endpoint requirement (lemmas \<open>app_get_health_extracted\<close> and
  \<open>health_route_satisfies_requirement\<close>), and \<open>/accounts\<close> is a sensitive path. But a
  registration \<open>app.get('/accounts', ...)\<close> with no auth token around it yields two
  missing-auth issues, not one: the array \<open>patterns\<close> holds the expression for
  \<open>app\<close> and \<open>router\<close> twice, so the registration is extracted twice. The same
  registration through \<open>Route.get\<close> yields one issue.
\<close>

theorem app_get_accounts_two_issues:
  "extractRoutes ''app.get('/accounts', handler)''
     = [\<lparr>rmethod = ''GET'', path = ''/accounts'', line = 1\<rparr>,
        \<lparr>rmethod = ''GET'', path = ''/accounts'', line = 1\<rparr>]
   \<and> isSensitiveRoute ''/accounts''
   \<and> \<not> hasAuthMiddleware ''app.get('/accounts', handler)'' 1
   \<and> issues (auth_validate [(''routes.js'', Content ''app.get('/accounts', handler)'')])
       = [''Route GET /accounts missing auth middleware (routes.js)'',
          ''Route GET /accounts missing auth middleware (routes.js)'']"
proof (intro conjI)
  show "extractRoutes ''app.get('/accounts', handler)''
     = [\<lparr>rmethod = ''GET'', path = ''/accounts'', line = 1\<rparr>,
        \<lparr>rmethod = ''GET'', path = ''/accounts'', line = 1\<rparr>]"
    by code_simp
  show "isSensitiveRoute ''/accounts''"
    by code_simp
  show "\<not> hasAuthMiddleware ''app.get('/accounts', handler)'' 1"
    by code_simp
  show "issues (auth_validate [(''routes.js'', Content ''app.get('/accounts', handler)'')])
       = [''Route GET /accounts missing auth middleware (routes.js)'',
          ''Route GET /accounts missing auth middleware (routes.js)'']"
    by code_simp
qed

section \<open>Properties of the auth-context check\<close>

lemma js_includes_iff: "js_includes s p \<longleftrightarrow> (\<exists>a b. s = a @ p @ b)"
proof (induction s)
  case Nil
  show ?case by auto
next
  case (Cons c cs)
  show ?case
  proof
    assume "js_includes (c # cs) p"
    then consider "startsWith (c # cs) p" | "js_includes cs p" by auto
    then show "\<exists>a b. c # cs = a @ p @ b"
    proof cases
      case 1
      then have "c # cs = [] @ p @ drop (length p) (c # cs)"
        unfolding startsWith_def by (metis append_Nil append_take_drop_id)
      then show ?thesis by blast
    next
      case 2
      with Cons.IH obtain a b where "cs = a @ p @ b" by blast
      then have "c # cs = (c # a) @ p @ b" by simp
      then show ?thesis by blast
    qed
  next
    assume "\<exists>a b. c # cs = a @ p @ b"
    then obtain a b where ab: "c # cs = a @ p @ b" by blast
    show "js_includes (c # cs) p"
    proof (cases a)
      case Nil
      with ab have "startsWith (c # cs) p" by (simp add: startsWith_def)
      then show ?thesis by simp
    next
      case (Cons x a')
      with ab have "cs = a' @ p @ b" by simp
      with Cons.IH show ?thesis by auto
    qed
  qed
qed

lemma ci_includes_iff: "ci_includes s p \<longleftrightarrow> (\<exists>a b. map lower_char s = a @ p @ b)"
  by (simp add: ci_includes_def js_includes_iff)

lemma ci_includes_embed: "ci_includes s p \<Longrightarrow> ci_includes (x @ s @ y) p"
proof -
  assume "ci_includes s p"
  then obtain a b where "map lower_char s = a @ p @ b" unfolding ci_includes_iff by blast
  then have "map lower_char (x @ s @ y) = (map lower_char x @ a) @ p @ (b @ map lower_char y)"
    by simp
  then show ?thesis unfolding ci_includes_iff by blast
qed

lemma ci_includes_trans:
  assumes "ci_includes s q" and "\<exists>a b. q = a @ p @ b"
  shows "ci_includes s p"
proof -
  from assms obtain a b c d where "map lower_char s = a @ q @ b" "q = c @ p @ d"
    unfolding ci_includes_iff by blast
  then have "map lower_char s = (a @ c) @ p @ (d @ b)" by simp
  then show ?thesis unfolding ci_includes_iff by blast
qed

lemma test_some_index_iff: "test_some_index P s \<longleftrightarrow> (\<exists>a t. s = a @ t \<and> P t)"
proof (induction s)
  case Nil
  show ?case by simp
next
  case (Cons c cs)
  show ?case
  proof
    assume "test_some_index P (c # cs)"
    then consider "P (c # cs)" | "test_some_index P cs" by auto
    then show "\<exists>a t. c # cs = a @ t \<and> P t"
    proof cases
      case 1
      then have "c # cs = [] @ (c # cs) \<and> P (c # cs)" by simp
      then show ?thesis by blast
    next
      case 2
      with Cons.IH obtain a t where "cs = a @ t" "P t" by blast
      then have "c # cs = (c # a) @ t \<and> P t" by simp
      then show ?thesis by blast
    qed
  next
    assume "\<exists>a t. c # cs = a @ t \<and> P t"
    then obtain a t where at: "c # cs = a @ t" "P t" by blast
    show "test_some_index P (c # cs)"
    proof (cases a)
      case Nil
      with at have "P (c # cs)" by simp
      then show ?thesis by simp
    next
      case (Cons x a')
      with at have "cs = a' @ t" by simp
      with at(2) Cons.IH show ?thesis by auto
    qed
  qed
qed

lemma passport_call_has_auth: "passport_call s \<Longrightarrow> ci_includes s ''auth''"
proof -
  assume "passport_call s"
  then obtain a b where "s = a @ ''passport.authenticate'' @ b"
    unfolding passport_call_def js_includes_iff by blast
  then have "map lower_char s
      = (map lower_char a @ ''passport.'') @ ''auth'' @ (''enticate'' @ map lower_char b)"
    by (simp add: lower_char_def)
  then show ?thesis unfolding ci_includes_iff by blast
qed

lemma middleware_then_auth_has_auth: "middleware_then_auth s \<Longrightarrow> ci_includes s ''auth''"
proof -
  assume "middleware_then_auth s"
  then obtain a t where s: "s = a @ t"
    and t: "ci_includes (same_line (drop (length ''middleware'') t)) ''auth''"
    unfolding middleware_then_auth_def test_some_index_iff by blast
  let ?d = "drop (length ''middleware'') t"
  have "?d = [] @ same_line ?d @ dropWhile (\<lambda>c. \<not> is_line_terminator c) ?d"
    by (simp add: same_line_def)
  with ci_includes_embed[OF t] have "ci_includes ?d ''auth''" by metis
  from ci_includes_embed[OF this, of "a @ take (length ''middleware'') t" "[]"] s
  show ?thesis by simp
qed

lemma auth_token_iff: "auth_token s \<longleftrightarrow> auth_identifier s"
proof -
  have "ci_includes s ''auth'' \<Longrightarrow> auth_identifier s" by (simp add: auth_identifier_def)
  then show ?thesis
    using passport_call_has_auth middleware_then_auth_has_auth
    by (auto simp: auth_token_def authPatterns_def)
qed

lemma js_includes_separator:
  assumes "c \<notin> set p" and "p \<noteq> []"
  shows "js_includes (x @ c # y) p \<longleftrightarrow> js_includes x p \<or> js_includes y p"
proof
  assume "js_includes (x @ c # y) p"
  then obtain a b where ab: "x @ c # y = a @ p @ b" unfolding js_includes_iff by blast
  then consider us where "x = a @ us" "us @ c # y = p @ b"
    | us where "x @ us = a" "c # y = us @ p @ b"
    by (auto simp: append_eq_append_conv2)
  then show "js_includes x p \<or> js_includes y p"
  proof cases
    case 1
    from 1(2) consider vs where "us = p @ vs" | vs where "us @ vs = p" "c # y = vs @ b"
      by (auto simp: append_eq_append_conv2)
    then show ?thesis
    proof cases
      case 1
      with \<open>x = a @ us\<close> have "x = a @ p @ vs" by simp
      then show ?thesis unfolding js_includes_iff by blast
    next
      case 2
      show ?thesis
      proof (cases vs)
        case Nil
        with 2 \<open>x = a @ us\<close> have "x = a @ p @ []" by simp
        then show ?thesis unfolding js_includes_iff by blast
      next
        case (Cons v vs')
        with 2 have "c \<in> set p" by auto
        with assms(1) show ?thesis by simp
      qed
    qed
  next
    case 2
    show ?thesis
    proof (cases us)
      case Nil
      with 2(2) assms(2) have "c \<in> set p" by (cases p) auto
      with assms(1) show ?thesis by simp
    next
      case (Cons u us')
      with 2(2) have "y = us' @ p @ b" by simp
      then show ?thesis unfolding js_includes_iff by blast
    qed
  qed
next
  assume "js_includes x p \<or> js_includes y p"
  then show "js_includes (x @ c # y) p"
  proof
    assume "js_includes x p"
    then obtain a b where "x = a @ p @ b" unfolding js_includes_iff by blast
    then have "x @ c # y = a @ p @ (b @ c # y)" by simp
    then show ?thesis unfolding js_includes_iff by blast
  next
    assume "js_includes y p"
    then obtain a b where "y = a @ p @ b" unfolding js_includes_iff by blast
    then have "x @ c # y = (x @ c # a) @ p @ b" by simp
    then show ?thesis unfolding js_includes_iff by blast
  qed
qed

lemma js_includes_join:
  assumes "c \<notin> set p" and "p \<noteq> []"
  shows "js_includes (join [c] ls) p \<longleftrightarrow> (\<exists>l \<in> set ls. js_includes l p)"
proof (induction "[c]" ls rule: join.induct)
  case 1
  from assms(2) show ?case by simp
next
  case (2 l)
  show ?case by simp
next
  case (3 l l' ls)
  have "js_includes (join [c] (l # l' # ls)) p
          \<longleftrightarrow> js_includes l p \<or> js_includes (join [c] (l' # ls)) p"
    using js_includes_separator[OF assms, of l "join [c] (l' # ls)"] by simp
  with 3 show ?case by simp
qed

lemma map_lower_char_join:
  "map lower_char (join ''\<newline>'' ls) = join ''\<newline>'' (map (map lower_char) ls)"
  by (induction "''\<newline>''" ls rule: join.induct) (simp_all add: lower_char_def)

lemma ci_includes_join:
  assumes "CHR 0x0A \<notin> set p" and "p \<noteq> []"
  shows "ci_includes (join ''\<newline>'' ls) p \<longleftrightarrow> (\<exists>l \<in> set ls. ci_includes l p)"
  using js_includes_join[OF assms, of "map (map lower_char) ls"]
  by (simp add: ci_includes_def map_lower_char_join)

lemma auth_identifier_join:
  "auth_identifier (join ''\<newline>'' ls) \<longleftrightarrow> (\<exists>l \<in> set ls. auth_identifier l)"
  unfolding auth_identifier_def list_ex_iff
  by (simp add: ci_includes_join) blast

lemma auth_token_join:
  "auth_token (join ''\<newline>'' ls) \<longleftrightarrow> (\<exists>l \<in> set ls. auth_token l)"
  by (simp add: auth_token_iff auth_identifier_join)

lemma set_slice:
  "set (slice xs b e) = {xs ! i | i. b \<le> i \<and> i < e \<and> i < length xs}"
proof (intro equalityI subsetI)
  fix l assume "l \<in> set (slice xs b e)"
  then obtain j where j: "j < length (take (e - b) (drop b xs))"
    and l: "l = take (e - b) (drop b xs) ! j"
    unfolding slice_def in_set_conv_nth by blast
  from j have jb: "j < e - b" "b + j < length xs" by auto
  with l have "l = xs ! (b + j)" by simp
  with jb have "l = xs ! (b + j) \<and> b \<le> b + j \<and> b + j < e \<and> b + j < length xs" by auto
  then show "l \<in> {xs ! i | i. b \<le> i \<and> i < e \<and> i < length xs}" by blast
next
  fix l assume "l \<in> {xs ! i | i. b \<le> i \<and> i < e \<and> i < length xs}"
  then obtain i where i: "l = xs ! i" "b \<le> i" "i < e" "i < length xs" by blast
  then have j: "i - b < length (take (e - b) (drop b xs))" by auto
  from i have "take (e - b) (drop b xs) ! (i - b) = l" by simp
  with j show "l \<in> set (slice xs b e)"
    unfolding slice_def in_set_conv_nth by blast
qed

lemma hasAuthMiddleware_auth_token:
  "hasAuthMiddleware code routeIndex
     = auth_token (join ''\<newline>'' (slice (split_on CHR 0x0A code) (routeIndex - 3) (routeIndex + 3)))"
  by (simp add: hasAuthMiddleware_def auth_token_def Let_def)

text \<open>
  Claim C2, as amended. For every source text and every target line number,
  \<open>hasAuthMiddleware\<close> is true iff some line among the two lines before the target
  line, the target line and the three lines after it (six lines, numbered from 1, fewer
  at the ends of the text) contains an auth-flavored identifier, a
  \<open>passport.authenticate\<close> call, or \<open>middleware\<close> followed on the same line by
  \<open>auth\<close>. The claim's window of five lines is refuted below by a text whose only
  auth token is three lines after the target line.
\<close>

theorem hasAuthMiddleware_six_line_window:
  "hasAuthMiddleware code routeIndex
     \<longleftrightarrow> (\<exists>n. routeIndex \<le> n + 2 \<and> n \<le> routeIndex + 3
              \<and> 1 \<le> n \<and> n \<le> length (split_on CHR 0x0A code)
              \<and> auth_token (split_on CHR 0x0A code ! (n - 1)))"
proof -
  let ?lines = "split_on CHR 0x0A code"
  have "hasAuthMiddleware code routeIndex
          \<longleftrightarrow> (\<exists>l \<in> set (slice ?lines (routeIndex - 3) (routeIndex + 3)). auth_token l)"
    by (simp only: hasAuthMiddleware_auth_token auth_token_join)
  also have "\<dots> \<longleftrightarrow> (\<exists>i. routeIndex - 3 \<le> i \<and> i < routeIndex + 3 \<and> i < length ?lines
                         \<and> auth_token (?lines ! i))"
    unfolding set_slice by blast
  also have "\<dots> \<longleftrightarrow> (\<exists>n. routeIndex \<le> n + 2 \<and> n \<le> routeIndex + 3
              \<and> 1 \<le> n \<and> n \<le> length ?lines \<and> auth_token (?lines ! (n - 1)))"
  proof
    assume "\<exists>i. routeIndex - 3 \<le> i \<and> i < routeIndex + 3 \<and> i < length ?lines
                         \<and> auth_token (?lines ! i)"
    then obtain i where "routeIndex - 3 \<le> i" "i < routeIndex + 3" "i < length ?lines"
      "auth_token (?lines ! i)" by blast
    then have "routeIndex \<le> Suc i + 2 \<and> Suc i \<le> routeIndex + 3 \<and> 1 \<le> Suc i
                 \<and> Suc i \<le> length ?lines \<and> auth_token (?lines ! (Suc i - 1))"
      by auto
    then show "\<exists>n. routeIndex \<le> n + 2 \<and> n \<le> routeIndex + 3
              \<and> 1 \<le> n \<and> n \<le> length ?lines \<and> auth_token (?lines ! (n - 1))"
      by blast
  next
    assume "\<exists>n. routeIndex \<le> n + 2 \<and> n \<le> routeIndex + 3
              \<and> 1 \<le> n \<and> n \<le> length ?lines \<and> auth_token (?lines ! (n - 1))"
    then obtain n where "routeIndex \<le> n + 2" "n \<le> routeIndex + 3" "1 \<le> n"
      "n \<le> length ?lines" "auth_token (?lines ! (n - 1))" by blast
    then have "routeIndex - 3 \<le> n - 1 \<and> n - 1 < routeIndex + 3 \<and> n - 1 < length ?lines
                 \<and> auth_token (?lines ! (n - 1))"
      by auto
    then show "\<exists>i. routeIndex - 3 \<le> i \<and> i < routeIndex + 3 \<and> i < length ?lines
                         \<and> auth_token (?lines ! i)"
      by blast
  qed
  finally show ?thesis .
qed

text \<open>
  The only auth token of this text is on line 4, three lines after the route on line 1:
  the check is true, the five-line window holds no token.
\<close>

theorem five_line_window_counterexample:
  "hasAuthMiddleware ''app.get('/accounts', handler)\<newline>\<newline>\<newline>// auth'' 1
   \<and> \<not> spec_hasAuthMiddleware ''app.get('/accounts', handler)\<newline>\<newline>\<newline>// auth'' 1"
  by code_simp

theorem hasAuthMiddleware_six_line_window_witness:
  "hasAuthMiddleware ''app.get('/accounts', handler)\<newline>\<newline>\<newline>// auth'' 1
   \<and> \<not> hasAuthMiddleware ''app.get('/accounts', handler)\<newline>\<newline>\<newline>\<newline>// auth'' 1
   \<and> (\<exists>n. 1 \<le> n + 2 \<and> n \<le> 1 + 3 \<and> 1 \<le> n
          \<and> n \<le> length (split_on CHR 0x0A ''app.get('/accounts', handler)\<newline>\<newline>\<newline>// auth'')
          \<and> auth_token (split_on CHR 0x0A ''app.get('/accounts', handler)\<newline>\<newline>\<newline>// auth'' ! (n - 1)))"
proof -
  have a: "hasAuthMiddleware ''app.get('/accounts', handler)\<newline>\<newline>\<newline>// auth'' 1"
    by code_simp
  have b: "\<not> hasAuthMiddleware ''app.get('/accounts', handler)\<newline>\<newline>\<newline>\<newline>// auth'' 1"
    by code_simp
  from a b show ?thesis
    using hasAuthMiddleware_six_line_window
      [of "''app.get('/accounts', handler)\<newline>\<newline>\<newline>// auth''" 1]
    by simp
qed

section \<open>Properties of the env-file parser\<close>







lemma parseEnvFile_Content: "parseEnvFile (Content text) = env_loop (split_on CHR 0x0A text) []"
proof (cases "text = []")
  case True
  have "env_line [] = None" by (simp add: env_line_def trim_def)
  with True show ?thesis by (simp add: parseEnvFile_def readFile_def)
next
  case False
  then show ?thesis by (simp add: parseEnvFile_def readFile_def)
qed

lemma parseEnvFile_no_content: "\<forall>t. f \<noteq> Content t \<Longrightarrow> parseEnvFile f = []"
  by (cases f) (simp_all add: parseEnvFile_def readFile_def)


lemma env_loop_snoc:
  "env_loop (ls @ [l]) env =
     (case env_line l of None \<Rightarrow> env_loop ls env
      | Some (k, v) \<Rightarrow> obj_set k v (env_loop ls env))"
  by (induction ls arbitrary: env) (auto split: option.splits)

lemma obj_set_keys:
  "fst ` set (obj_set k v ob) = (if k = ''__proto__'' then fst ` set ob else insert k (fst ` set ob))"
  by (simp add: obj_set_def AList.dom_update)

lemma obj_set_distinct: "distinct (map fst ob) \<Longrightarrow> distinct (map fst (obj_set k v ob))"
  by (simp add: obj_set_def AList.distinct_update)


lemma env_loop_invariant:
  "distinct (map fst (env_loop lines []))
   \<and> ''__proto__'' \<notin> fst ` set (env_loop lines [])
   \<and> (\<forall>k \<in> fst ` set (env_loop lines []). \<exists>ln \<in> set lines. \<exists>v. env_line ln = Some (k, v))"
proof (induction lines rule: rev_induct)
  case Nil
  show ?case by simp
next
  case (snoc l ls)
  show ?case
  proof (cases "env_line l")
    case None
    with snoc show ?thesis by (auto simp: env_loop_snoc)
  next
    case (Some e)
    obtain k v where e: "e = (k, v)" by (cases e)
    with Some snoc show ?thesis
      by (auto simp: env_loop_snoc obj_set_keys obj_set_distinct)
  qed
qed


















section \<open>Properties of the env validator\<close>

lemma set_Object_keys: "set (Object_keys ob) = fst ` set ob"
  by (auto simp: Object_keys_def Let_def)

lemma distinct_Object_keys: "distinct (map fst ob) \<Longrightarrow> distinct (Object_keys ob)"
  by (auto simp: Object_keys_def Let_def)

lemma parseEnvFile_distinct: "distinct (map fst (parseEnvFile f))"
proof (cases f)
  case (Content t)
  then show ?thesis
    using env_loop_invariant[of "split_on CHR 0x0A t"] by (simp add: parseEnvFile_Content)
qed (simp_all add: parseEnvFile_def readFile_def)

lemma secret_issues_cases:
  "secret_issues actualVars key = [] \<or> secret_issues actualVars key = [empty_issue key]
   \<or> secret_issues actualVars key = [weak_secret_issue key]"
  by (simp add: secret_issues_def split: option.splits)

lemma secret_issues_not_missing:
  "i \<in> set (secret_issues actualVars key) \<Longrightarrow> \<not> startsWith i ''MISSING:''"
  using secret_issues_cases[of actualVars key]
  by (auto simp: empty_issue_def weak_secret_issue_def startsWith_def)

text \<open>
  Claim C6. For every project where the file \<open>.env\<close> exists and every key parsed from
  \<open>.env.example\<close> also appears among the keys parsed from \<open>.env\<close>, the list of issues
  of the env validator has no entry beginning with \<open>MISSING:\<close>.
\<close>

theorem no_missing_issue_when_example_keys_present:
  assumes "fileExists envFile"
    and "\<forall>key \<in> set (Object_keys (parseEnvFile envExampleFile)).
           key \<in> set (Object_keys (parseEnvFile envFile))"
  shows "\<forall>i \<in> set (env_issues envFile envExampleFile). \<not> startsWith i ''MISSING:''"
proof
  fix i assume i: "i \<in> set (env_issues envFile envExampleFile)"
  let ?expected = "if fileExists envExampleFile then parseEnvFile envExampleFile else []"
  have "filter (\<lambda>key. \<not> js_in key (parseEnvFile envFile)) (Object_keys ?expected) = []"
    using assms(2) by (auto simp: filter_empty_conv js_in_def set_Object_keys)
  with i assms(1) obtain key where "i \<in> set (secret_issues (parseEnvFile envFile) key)"
    by (auto simp: env_issues_def Let_def)
  then show "\<not> startsWith i ''MISSING:''" by (rule secret_issues_not_missing)
qed

theorem no_missing_issue_witness:
  "fileExists (Content ''PORT=3000\<newline>JWT_SECRET=abc'')
   \<and> env_issues (Content ''PORT=3000\<newline>JWT_SECRET=abc'') (Content ''PORT=\<newline>JWT_SECRET='')
       = [''WEAK SECRET: JWT_SECRET (length < 32)'']
   \<and> \<not> startsWith ''WEAK SECRET: JWT_SECRET (length < 32)'' ''MISSING:''"
proof -
  have e: "fileExists (Content ''PORT=3000\<newline>JWT_SECRET=abc'')" by (simp add: fileExists_def)
  have k1: "Object_keys (parseEnvFile (Content ''PORT=\<newline>JWT_SECRET='')) = [''PORT'', ''JWT_SECRET'']"
    by code_simp
  have k2: "Object_keys (parseEnvFile (Content ''PORT=3000\<newline>JWT_SECRET=abc'')) = [''PORT'', ''JWT_SECRET'']"
    by code_simp
  have v: "env_issues (Content ''PORT=3000\<newline>JWT_SECRET=abc'') (Content ''PORT=\<newline>JWT_SECRET='')
       = [''WEAK SECRET: JWT_SECRET (length < 32)'']"
    by code_simp
  from no_missing_issue_when_example_keys_present
         [of "Content ''PORT=3000\<newline>JWT_SECRET=abc''" "Content ''PORT=\<newline>JWT_SECRET=''"]
       e k1 k2 v
  show ?thesis by simp
qed

lemma count_list_concat_map:
  "count_list (concat (map f xs)) y = sum_list (map (\<lambda>x. count_list (f x) y) xs)"
  by (induction xs) simp_all

lemma sum_list_single:
  assumes "distinct xs" and "\<And>x. x \<in> set xs \<Longrightarrow> x \<noteq> k \<Longrightarrow> g x = (0::nat)"
  shows "sum_list (map g xs) = (if k \<in> set xs then g k else 0)"
  using assms by (induction xs) auto

lemma weak_secret_issue_inj: "weak_secret_issue k' = weak_secret_issue k \<Longrightarrow> k' = k"
  by (simp add: weak_secret_issue_def)

lemma count_weak_in_secret_issues_other:
  "x \<noteq> k \<Longrightarrow> count_list (secret_issues actualVars x) (weak_secret_issue k) = 0"
  using secret_issues_cases[of actualVars x] weak_secret_issue_inj[of x k]
  by (auto simp: empty_issue_def weak_secret_issue_def)

lemma toUpperCase_SECRET: "toUpperCase ''SECRET'' = map of_char ''SECRET''"
  by (simp add: toUpperCase_def upper_units_def)

lemma toUpperCase_append: "toUpperCase (a @ b) = toUpperCase a @ toUpperCase b"
  by (simp add: toUpperCase_def)

lemma SECRET_in_upper:
  assumes "js_includes key ''SECRET''"
  shows "js_includes (toUpperCase key) (map of_char ''SECRET'')"
proof -
  from assms obtain a b where "key = a @ ''SECRET'' @ b" unfolding js_includes_iff by blast
  then have "toUpperCase key = toUpperCase a @ map of_char ''SECRET'' @ toUpperCase b"
    by (simp only: toUpperCase_append toUpperCase_SECRET)
  then show ?thesis unfolding js_includes_iff by blast
qed

lemma SECRET_is_secret_like:
  assumes "js_includes key ''SECRET''"
  shows "secret_like key"
proof -
  from assms obtain a b where "key = a @ ''SECRET'' @ b" unfolding js_includes_iff by blast
  then have "map lower_char key = map lower_char a @ ''secret'' @ map lower_char b"
    by (simp add: lower_char_def)
  then have "ci_includes key ''secret''" unfolding ci_includes_iff by blast
  then show ?thesis by (simp add: secret_like_def)
qed

lemma Object_keys_Nil: "Object_keys [] = []"
  by (simp add: Object_keys_def)

lemma env_issues_decomp:
  "\<exists>i0 ms. set i0 \<subseteq> {''MISSING: .env file not found''}
     \<and> env_issues envFile envExampleFile
         = i0 @ map (\<lambda>key. ''MISSING: '' @ key) ms
             @ concat (map (secret_issues (if fileExists envFile then parseEnvFile envFile else []))
                 (filter secret_like
                    (Object_keys (if fileExists envFile then parseEnvFile envFile else []))))"
proof -
  let ?i0 = "if \<not> fileExists envFile then [''MISSING: .env file not found''] else []"
  let ?ms = "filter (\<lambda>key. \<not> js_in key (if fileExists envFile then parseEnvFile envFile else []))
               (Object_keys (if fileExists envExampleFile then parseEnvFile envExampleFile else []))"
  have "set ?i0 \<subseteq> {''MISSING: .env file not found''}" by auto
  moreover have "env_issues envFile envExampleFile
         = ?i0 @ map (\<lambda>key. ''MISSING: '' @ key) ?ms
             @ concat (map (secret_issues (if fileExists envFile then parseEnvFile envFile else []))
                 (filter secret_like
                    (Object_keys (if fileExists envFile then parseEnvFile envFile else []))))"
    by (simp only: env_issues_def Let_def append_assoc)
  ultimately show ?thesis by blast
qed

lemma count_weak_in_missing:
  "count_list (map (\<lambda>key. ''MISSING: '' @ key) ms) (weak_secret_issue k) = 0"
  by (induction ms) (simp_all add: weak_secret_issue_def)

lemma count_weak_in_file_issue:
  "set i0 \<subseteq> {''MISSING: .env file not found''} \<Longrightarrow> count_list i0 (weak_secret_issue k) = 0"
  by (induction i0) (auto simp: weak_secret_issue_def)

lemma count_weak_in_env_issues:
  "count_list (env_issues envFile envExampleFile) (weak_secret_issue k)
     = (if k \<in> set (Object_keys (parseEnvFile envFile)) \<and> secret_like k \<and> fileExists envFile
        then count_list (secret_issues (parseEnvFile envFile) k) (weak_secret_issue k)
        else 0)"
proof -
  let ?actual = "if fileExists envFile then parseEnvFile envFile else []"
  let ?keys = "filter secret_like (Object_keys ?actual)"
  have d: "distinct ?keys"
    by (simp add: distinct_Object_keys parseEnvFile_distinct Object_keys_Nil)
  have c: "count_list (concat (map (secret_issues ?actual) ?keys)) (weak_secret_issue k)
          = (if k \<in> set ?keys then count_list (secret_issues ?actual k) (weak_secret_issue k) else 0)"
    unfolding count_list_concat_map
    by (rule sum_list_single[OF d]) (rule count_weak_in_secret_issues_other)
  from env_issues_decomp[of envFile envExampleFile] obtain i0 ms where
    i0: "set i0 \<subseteq> {''MISSING: .env file not found''}"
    and e: "env_issues envFile envExampleFile
         = i0 @ map (\<lambda>key. ''MISSING: '' @ key) ms @ concat (map (secret_issues ?actual) ?keys)"
    by blast
  have "count_list (env_issues envFile envExampleFile) (weak_secret_issue k)
          = count_list (concat (map (secret_issues ?actual) ?keys)) (weak_secret_issue k)"
    unfolding e by (simp add: count_weak_in_missing count_weak_in_file_issue[OF i0])
  also have "\<dots> = (if k \<in> set ?keys then count_list (secret_issues ?actual k) (weak_secret_issue k) else 0)"
    by (rule c)
  also have "\<dots> = (if k \<in> set (Object_keys (parseEnvFile envFile)) \<and> secret_like k \<and> fileExists envFile
        then count_list (secret_issues (parseEnvFile envFile) k) (weak_secret_issue k)
        else 0)"
    by (simp add: Object_keys_Nil)
  finally show ?thesis .
qed

text \<open>
  Claim C3, as amended. For every key parsed from \<open>.env\<close> whose name contains
  \<open>SECRET\<close>: a value of length 1 to 31 produces exactly one \<open>WEAK SECRET\<close> issue
  for the key; a value of length 32 or more produces none; the empty value produces none
  either, but one \<open>EMPTY\<close> issue instead.
\<close>

theorem weak_secret_issue_count:
  "fileExists envFile \<and> obj_get (parseEnvFile envFile) key = Some val
     \<and> js_includes key ''SECRET''
   \<longrightarrow> count_list (env_issues envFile envExampleFile) (weak_secret_issue key)
         = (if val \<noteq> [] \<and> length val < 32 then 1 else 0)
       \<and> (val = [] \<longrightarrow> empty_issue key \<in> set (env_issues envFile envExampleFile))"
proof (intro impI)
  assume a: "fileExists envFile \<and> obj_get (parseEnvFile envFile) key = Some val
     \<and> js_includes key ''SECRET''"
  then have g: "obj_get (parseEnvFile envFile) key = Some val" and i: "js_includes key ''SECRET''"
    and f: "fileExists envFile" by simp_all
  from g have k: "key \<in> set (Object_keys (parseEnvFile envFile))"
    unfolding set_Object_keys obj_get_def by (metis domI dom_map_of_conv_image_fst)
  have s: "secret_like key" by (rule SECRET_is_secret_like[OF i])
  have "count_list (secret_issues (parseEnvFile envFile) key) (weak_secret_issue key)
          = (if val \<noteq> [] \<and> length val < 32 then 1 else 0)"
    using g SECRET_in_upper[OF i]
    by (simp add: secret_issues_def empty_issue_def weak_secret_issue_def)
  with k s f
  have c: "count_list (env_issues envFile envExampleFile) (weak_secret_issue key)
           = (if val \<noteq> [] \<and> length val < 32 then 1 else 0)"
    by (simp add: count_weak_in_env_issues)
  have e: "empty_issue key \<in> set (env_issues envFile envExampleFile)" if "val = []"
  proof -
    from that g have "secret_issues (parseEnvFile envFile) key = [empty_issue key]"
      by (simp add: secret_issues_def)
    with k s f show ?thesis by (auto simp: env_issues_def Let_def)
  qed
  from c e show "count_list (env_issues envFile envExampleFile) (weak_secret_issue key)
         = (if val \<noteq> [] \<and> length val < 32 then 1 else 0)
       \<and> (val = [] \<longrightarrow> empty_issue key \<in> set (env_issues envFile envExampleFile))"
    by blast
qed

theorem weak_secret_issue_count_witness:
  "obj_get (parseEnvFile (Content ''PORT=3000\<newline>JWT_SECRET=abc'')) ''JWT_SECRET'' = Some ''abc''
   \<and> count_list (env_issues (Content ''PORT=3000\<newline>JWT_SECRET=abc'') Absent)
        (weak_secret_issue ''JWT_SECRET'') = 1
   \<and> obj_get (parseEnvFile (Content ''S_SECRET=0123456789abcdef0123456789abcdef''))
        ''S_SECRET'' = Some ''0123456789abcdef0123456789abcdef''
   \<and> count_list (env_issues (Content ''S_SECRET=0123456789abcdef0123456789abcdef'') Absent)
        (weak_secret_issue ''S_SECRET'') = 0"
proof -
  have f: "fileExists (Content t)" for t by (simp add: fileExists_def)
  have g1: "obj_get (parseEnvFile (Content ''PORT=3000\<newline>JWT_SECRET=abc'')) ''JWT_SECRET'' = Some ''abc''"
    by code_simp
  have i1: "js_includes ''JWT_SECRET'' ''SECRET''" by code_simp
  have g2: "obj_get (parseEnvFile (Content ''S_SECRET=0123456789abcdef0123456789abcdef''))
        ''S_SECRET'' = Some ''0123456789abcdef0123456789abcdef''"
    by code_simp
  have i2: "js_includes ''S_SECRET'' ''SECRET''" by code_simp
  from weak_secret_issue_count
         [of "Content ''PORT=3000\<newline>JWT_SECRET=abc''" "''JWT_SECRET''" "''abc''" Absent] f g1 i1
  have "count_list (env_issues (Content ''PORT=3000\<newline>JWT_SECRET=abc'') Absent)
        (weak_secret_issue ''JWT_SECRET'') = (if ''abc'' \<noteq> [] \<and> length ''abc'' < 32 then 1 else 0)"
    by blast
  then have c1: "count_list (env_issues (Content ''PORT=3000\<newline>JWT_SECRET=abc'') Absent)
        (weak_secret_issue ''JWT_SECRET'') = 1"
    by simp
  from weak_secret_issue_count
         [of "Content ''S_SECRET=0123456789abcdef0123456789abcdef''" "''S_SECRET''"
             "''0123456789abcdef0123456789abcdef''" Absent] f g2 i2
  have "count_list (env_issues (Content ''S_SECRET=0123456789abcdef0123456789abcdef'') Absent)
        (weak_secret_issue ''S_SECRET'')
          = (if ''0123456789abcdef0123456789abcdef'' \<noteq> []
                \<and> length ''0123456789abcdef0123456789abcdef'' < 32 then 1 else 0)"
    by blast
  then have c2: "count_list (env_issues (Content ''S_SECRET=0123456789abcdef0123456789abcdef'') Absent)
        (weak_secret_issue ''S_SECRET'') = 0"
    by simp
  from g1 c1 g2 c2 show ?thesis by blast
qed

text \<open>
  An empty secret has a length below 32 and gets the \<open>EMPTY\<close> issue, not a
  \<open>WEAK SECRET\<close> issue.
\<close>

theorem empty_secret_counterexample:
  "obj_get (parseEnvFile (Content ''MY_SECRET='')) ''MY_SECRET'' = Some []
   \<and> js_includes ''MY_SECRET'' ''SECRET''
   \<and> length ([] :: string) < 32
   \<and> env_issues (Content ''MY_SECRET='') Absent = [''EMPTY: MY_SECRET is empty'']
   \<and> count_list (env_issues (Content ''MY_SECRET='') Absent) (weak_secret_issue ''MY_SECRET'') = 0"
proof -
  have g: "obj_get (parseEnvFile (Content ''MY_SECRET='')) ''MY_SECRET'' = Some []"
    by code_simp
  have i: "js_includes ''MY_SECRET'' ''SECRET''" by code_simp
  have e: "env_issues (Content ''MY_SECRET='') Absent = [''EMPTY: MY_SECRET is empty'']"
    by code_simp
  have c: "count_list [''EMPTY: MY_SECRET is empty''] (weak_secret_issue ''MY_SECRET'') = 0"
    by (simp add: weak_secret_issue_def)
  from g i e c show ?thesis by simp
qed

section \<open>Properties of the route extractor\<close>

lemma length_split_on: "length (split_on c s) = Suc (count_list s c)"
  by (induction s) (auto split: list.splits)

lemma count_list_take_le: "count_list (take i xs) c \<le> count_list xs c"
proof -
  have "count_list xs c = count_list (take i xs) c + count_list (drop i xs) c"
    by (metis append_take_drop_id count_list_append)
  then show ?thesis by simp
qed

lemma line_of_index_mono: "i \<le> j \<Longrightarrow> line_of_index code i \<le> line_of_index code j"
proof -
  assume "i \<le> j"
  then have "take i code = take i (take j code)" by (simp add: min_def)
  then have "count_list (take i code) CHR 0x0A \<le> count_list (take j code) CHR 0x0A"
    using count_list_take_le[of i "take j code" "CHR 0x0A"] by simp
  then show ?thesis by (simp add: line_of_index_def length_split_on)
qed

lemma exec_index: "exec pat code i = Some m \<Longrightarrow> i \<le> fst m"
proof -
  assume e: "exec pat code i = Some m"
  obtain idx v p n where m: "m = (idx, v, p, n)" by (cases m)
  from e have "search_route pat (drop i code) i = Some m"
    by (auto simp: exec_def split: if_splits)
  with m search_route_bounds[of pat "drop i code" i idx v p n] show ?thesis by simp
qed

lemma route_of_match_line: "line (route_of_match code m) = line_of_index code (fst m)"
  by (cases m) (simp add: route_of_match_def line_of_index_def)

lemma exec_loop_lines_lower:
  "r \<in> set (exec_loop pat code i) \<Longrightarrow> line_of_index code i \<le> line r"
proof (induction pat code i rule: exec_loop.induct)
  case (1 pat code lastIndex)
  show ?case
  proof (cases "exec pat code lastIndex")
    case None
    with "1.prems" show ?thesis by (simp add: exec_loop.simps)
  next
    case (Some m)
    from exec_index[OF Some] have le: "lastIndex \<le> fst m" .
    from "1.prems" Some
    consider "r = route_of_match code m"
      | "r \<in> set (exec_loop pat code (fst m + snd (snd (snd m))))"
      by (subst (asm) exec_loop.simps) auto
    then show ?thesis
    proof cases
      case 1
      with line_of_index_mono[OF le, of code] show ?thesis by (simp add: route_of_match_line)
    next
      case 2
      from "1.IH"[OF Some 2]
      have "line_of_index code (fst m + snd (snd (snd m))) \<le> line r" .
      moreover from le have "line_of_index code lastIndex
                               \<le> line_of_index code (fst m + snd (snd (snd m)))"
        by (intro line_of_index_mono) simp
      ultimately show ?thesis by simp
    qed
  qed
qed

lemma exec_loop_sorted: "sorted (map line (exec_loop pat code i))"
proof (induction pat code i rule: exec_loop.induct)
  case (1 pat code lastIndex)
  show ?case
  proof (cases "exec pat code lastIndex")
    case None
    then show ?thesis by (simp add: exec_loop.simps)
  next
    case (Some m)
    have e: "exec_loop pat code lastIndex
               = route_of_match code m # exec_loop pat code (fst m + snd (snd (snd m)))"
      by (subst exec_loop.simps) (simp add: Some)
    have "\<forall>r \<in> set (exec_loop pat code (fst m + snd (snd (snd m)))).
            line (route_of_match code m) \<le> line r"
    proof
      fix r assume "r \<in> set (exec_loop pat code (fst m + snd (snd (snd m))))"
      from exec_loop_lines_lower[OF this]
      have "line_of_index code (fst m + snd (snd (snd m))) \<le> line r" .
      moreover have "line_of_index code (fst m) \<le> line_of_index code (fst m + snd (snd (snd m)))"
        by (intro line_of_index_mono) simp
      ultimately show "line (route_of_match code m) \<le> line r"
        by (simp add: route_of_match_line)
    qed
    with "1.IH"[OF Some] show ?thesis by (simp add: e)
  qed
qed

lemma while_exec_result:
  "while_exec reg code routes s
     = (routes @ exec_loop (fst reg) code (lastIndex_at s (snd reg)),
        s\<lparr>lastIndex_at := (lastIndex_at s)(snd reg := 0)\<rparr>)"
proof (induction reg code routes s rule: while_exec.induct)
  case (1 reg code routes s)
  show ?case
  proof (cases "exec (fst reg) code (lastIndex_at s (snd reg))")
    case None
    then show ?thesis
      by (subst while_exec.simps, subst exec_loop.simps) (simp add: exec_st_def)
  next
    case (Some m)
    let ?s' = "s\<lparr>lastIndex_at := (lastIndex_at s)(snd reg := fst m + snd (snd (snd m)))\<rparr>"
    have x: "exec_st reg code s = (Some m, ?s')" by (simp add: exec_st_def Some)
    from "1.IH"[OF x[symmetric] refl]
    have "while_exec reg code (routes @ [route_of_match code m]) ?s'
            = ((routes @ [route_of_match code m])
                 @ exec_loop (fst reg) code (lastIndex_at ?s' (snd reg)),
               ?s'\<lparr>lastIndex_at := (lastIndex_at ?s')(snd reg := 0)\<rparr>)" .
    then show ?thesis
      by (subst while_exec.simps, subst exec_loop.simps) (simp add: x Some)
  qed
qed

lemma forEach_pattern_result:
  assumes "\<forall>reg \<in> set regs. lastIndex_at s (snd reg) = 0"
  shows "fst (forEach_pattern regs code routes s)
           = routes @ concat (map (\<lambda>reg. exec_loop (fst reg) code 0) regs)"
  using assms
proof (induction regs arbitrary: routes s)
  case Nil
  show ?case by simp
next
  case (Cons reg regs)
  let ?s' = "s\<lparr>lastIndex_at := (lastIndex_at s)(snd reg := 0)\<rparr>"
  from Cons.prems have z: "lastIndex_at s (snd reg) = 0" by simp
  from Cons.prems have "\<forall>r \<in> set regs. lastIndex_at ?s' (snd r) = 0" by simp
  from Cons.IH[OF this]
  have "fst (forEach_pattern regs code (routes @ exec_loop (fst reg) code 0) ?s')
          = (routes @ exec_loop (fst reg) code 0)
              @ concat (map (\<lambda>reg. exec_loop (fst reg) code 0) regs)" .
  then show ?case by (simp add: while_exec_result z)
qed

lemma new_patterns_Cons:
  "fst (new_patterns (pat # pats) s)
     = (pat, fst (new_RegExp s)) # fst (new_patterns pats (snd (new_RegExp s)))"
  "snd (new_patterns (pat # pats) s) = snd (new_patterns pats (snd (new_RegExp s)))"
  by (simp_all split: prod.splits)

lemma new_RegExp_keeps_zero: "lastIndex_at s x = 0 \<Longrightarrow> lastIndex_at (snd (new_RegExp s)) x = 0"
  by (simp add: new_RegExp_def)

lemma new_patterns_keeps_zero:
  "lastIndex_at s x = 0 \<Longrightarrow> lastIndex_at (snd (new_patterns pats s)) x = 0"
proof (induction pats arbitrary: s)
  case Nil
  then show ?case by simp
next
  case (Cons pat pats)
  from new_RegExp_keeps_zero[OF Cons.prems]
  have "lastIndex_at (snd (new_RegExp s)) x = 0" .
  from Cons.IH[OF this] show ?case by (simp only: new_patterns_Cons)
qed

lemma new_patterns_result:
  "map fst (fst (new_patterns pats s)) = pats
   \<and> (\<forall>reg \<in> set (fst (new_patterns pats s)). lastIndex_at (snd (new_patterns pats s)) (snd reg) = 0)"
proof (induction pats arbitrary: s)
  case Nil
  show ?case by simp
next
  case (Cons pat pats)
  let ?s1 = "snd (new_RegExp s)"
  have a: "fst (new_RegExp s) = next_address s" by (simp add: new_RegExp_def)
  have "lastIndex_at ?s1 (next_address s) = 0" by (simp add: new_RegExp_def)
  from new_patterns_keeps_zero[OF this]
  have z: "lastIndex_at (snd (new_patterns pats ?s1)) (next_address s) = 0" .
  from Cons[of ?s1] have m: "map fst (fst (new_patterns pats ?s1)) = pats"
    and r: "\<forall>reg \<in> set (fst (new_patterns pats ?s1)).
              lastIndex_at (snd (new_patterns pats ?s1)) (snd reg) = 0"
    by simp_all
  from m r z show ?case unfolding new_patterns_Cons a by simp
qed

lemma extractRoutes_st_result: "fst (extractRoutes_st code s) = extractRoutes code"
proof -
  obtain regs s1 where n: "new_patterns patterns s = (regs, s1)" by (cases "new_patterns patterns s")
  with new_patterns_result[of patterns s]
  have m: "map fst regs = patterns" and z: "\<forall>reg \<in> set regs. lastIndex_at s1 (snd reg) = 0"
    by simp_all
  have "fst (extractRoutes_st code s) = concat (map (\<lambda>reg. exec_loop (fst reg) code 0) regs)"
    using forEach_pattern_result[OF z, of code "[]"] by (simp add: extractRoutes_st_def n)
  also have "\<dots> = concat (map (\<lambda>pat. exec_loop pat code 0) (map fst regs))"
    by (simp add: comp_def)
  finally show ?thesis by (simp add: m extractRoutes_def)
qed

text \<open>
  Claim C9. Route extraction is deterministic, idempotent and order-preserving: in
  whatever store a call of \<open>extractRoutes\<close> runs, it returns the sequence that depends on
  the text alone; so a second call on the same text, running in the store that a first
  call (on the same or on another text) left behind, returns the equal sequence, with
  the records in the same order.
\<close>

theorem extractRoutes_repeated_invocation:
  "fst (extractRoutes_st code (snd (extractRoutes_st code s))) = fst (extractRoutes_st code s)
   \<and> fst (extractRoutes_st code (snd (extractRoutes_st other s))) = fst (extractRoutes_st code s)
   \<and> fst (extractRoutes_st code s) = fst (extractRoutes_st code s')
   \<and> fst (extractRoutes_st code s) = extractRoutes code"
  by (simp add: extractRoutes_st_result)

theorem extractRoutes_repeated_invocation_witness:
  "fst (extractRoutes_st ''app.get('/a', f)\<newline>Route.put('/c', h)\<newline>router.post('/b', g)''
          (snd (extractRoutes_st ''app.get('/a', f)\<newline>Route.put('/c', h)\<newline>router.post('/b', g)''
                  \<lparr>next_address = 0, lastIndex_at = (\<lambda>a. 7)\<rparr>)))
     = [\<lparr>rmethod = ''GET'', path = ''/a'', line = 1\<rparr>,
        \<lparr>rmethod = ''POST'', path = ''/b'', line = 3\<rparr>,
        \<lparr>rmethod = ''GET'', path = ''/a'', line = 1\<rparr>,
        \<lparr>rmethod = ''POST'', path = ''/b'', line = 3\<rparr>,
        \<lparr>rmethod = ''PUT'', path = ''/c'', line = 2\<rparr>]"
proof -
  have e: "extractRoutes ''app.get('/a', f)\<newline>Route.put('/c', h)\<newline>router.post('/b', g)''
     = [\<lparr>rmethod = ''GET'', path = ''/a'', line = 1\<rparr>,
        \<lparr>rmethod = ''POST'', path = ''/b'', line = 3\<rparr>,
        \<lparr>rmethod = ''GET'', path = ''/a'', line = 1\<rparr>,
        \<lparr>rmethod = ''POST'', path = ''/b'', line = 3\<rparr>,
        \<lparr>rmethod = ''PUT'', path = ''/c'', line = 2\<rparr>]"
    by code_simp
  from extractRoutes_repeated_invocation
         [of "''app.get('/a', f)\<newline>Route.put('/c', h)\<newline>router.post('/b', g)''"
             "\<lparr>next_address = 0, lastIndex_at = (\<lambda>a. 7)\<rparr>"]
       e
  show ?thesis by simp
qed

lemma extractRoutes_st_evaluated:
  "fst (extractRoutes_st ''app.get('/a', f)'' \<lparr>next_address = 0, lastIndex_at = (\<lambda>a. 7)\<rparr>)
     = [\<lparr>rmethod = ''GET'', path = ''/a'', line = 1\<rparr>,
        \<lparr>rmethod = ''GET'', path = ''/a'', line = 1\<rparr>]"
  by code_simp

end
